theory Spec2Isabelle
  imports Complex_Main
begin

section \<open>The JSON backend of the synchronized collection (signac/core/collection\_json.py)\<close>

text \<open>
  A shallow embedding of \<^verbatim>\<open>_convert_key_to_str\<close> and of the class
  \<^verbatim>\<open>JSONCollection\<close>: its constructor, \<^verbatim>\<open>_load_from_file\<close>,
  \<^verbatim>\<open>_load\<close>, \<^verbatim>\<open>_write_to_file\<close> and \<^verbatim>\<open>_sync\<close>.
  Python's leading underscore is not a legal start of an Isabelle name, so the private
  methods are named after their class: \<open>JSONCollection_load\<close> is \<^verbatim>\<open>JSONCollection._load\<close>.
\<close>

subsection \<open>Value trees\<close>

text \<open>
  A Python \<^verbatim>\<open>str\<close> is a sequence of Unicode code points, so it is a list of
  naturals here; \<open>ascii\<close> turns an ASCII literal into one. Bytes (file contents, file
  names) are Isabelle strings.

  A tree of "base type" is made of \<^verbatim>\<open>None\<close>, booleans, integers, floats, strings,
  lists and dicts, with strings, integers, floats, booleans and \<^verbatim>\<open>None\<close> as keys, the
  types of keys that \<^verbatim>\<open>json.dumps\<close> accepts. Python's dict keeps insertion order, so
  a dict is the list of its items in that order.

  A Python \<^verbatim>\<open>float\<close> is an IEEE 754 binary64 number: \<open>Finite s m e\<close> is the number of
  sign \<open>s\<close> and magnitude \<open>m \<times> 2\<^sup>e\<close>, and \<open>valid_double\<close> holds of the finite numbers of the
  format, each written in one way (53 bits of mantissa, the exponent of the least bit
  between -1074 and 971, the mantissa normalised unless the exponent is the least).
\<close>

type_synonym pystr = "nat list"

definition ascii :: "string \<Rightarrow> pystr" where
  "ascii s = map of_char s"

datatype pyfloat = Finite bool nat int | Infinite bool | NaN

fun valid_double :: "pyfloat \<Rightarrow> bool" where
  "valid_double (Finite s m e) =
     (m < 2 ^ 53 \<and> - 1074 \<le> e \<and> e \<le> 971 \<and> (2 ^ 52 \<le> m \<or> e = - 1074))"
| "valid_double x = False"

datatype pykey = KStr pystr | KInt int | KBool bool | KNone | KFloat pyfloat

datatype pyval =
    VNone
  | VBool bool
  | VInt int
  | VStr pystr
  | VList "pyval list"
  | VDict "(pykey \<times> pyval) list"
  | VFloat pyfloat

datatype warning = DeprecationWarning string

text \<open>\<^verbatim>\<open>str(i)\<close> for an integer: its decimal numeral.\<close>

definition digit_char :: "nat \<Rightarrow> char" where
  "digit_char d = char_of (48 + d)"

fun nat_str :: "nat \<Rightarrow> string" where
  "nat_str n = (if n < 10 then [digit_char n] else nat_str (n div 10) @ [digit_char (n mod 10)])"

definition int_str :: "int \<Rightarrow> string" where
  "int_str i = (if i < 0 then CHR ''-'' # nat_str (nat (- i)) else nat_str (nat i))"

subsection \<open>Floating-point numbers: \<^verbatim>\<open>float(text)\<close> and \<^verbatim>\<open>float.__repr__\<close>\<close>

text \<open>
  \<^verbatim>\<open>float(text)\<close> is the binary64 number nearest to the decimal number the text
  denotes, a tie going to the even mantissa, and infinity when the rounded mantissa does
  not fit under the greatest exponent. \<open>round_double s q\<close> rounds the magnitude \<open>q\<close>:
  \<open>find_exp\<close> looks for the least exponent, from -1074 on, under which the mantissa
  stays below \<open>2\<^sup>5\<^sup>3\<close>.
\<close>

fun find_exp :: "rat \<Rightarrow> nat \<Rightarrow> int \<Rightarrow> int" where
  "find_exp q 0 e = e"
| "find_exp q (Suc n) e = (if q < 2 powi (53 + e) then e else find_exp q n (e + 1))"

definition round_half_even :: "rat \<Rightarrow> nat" where
  "round_half_even q =
     (let f = nat \<lfloor>q\<rfloor>; r = q - of_nat f
      in if r < 1 / 2 then f else if 1 / 2 < r then f + 1 else if even f then f else f + 1)"

definition round_double :: "bool \<Rightarrow> rat \<Rightarrow> pyfloat" where
  "round_double s q =
     (let e = find_exp q 2046 (- 1074);
          m = round_half_even (q / 2 powi e)
      in if 971 < e then Infinite s
         else if m = 2 ^ 53 then (if 971 < e + 1 then Infinite s else Finite s (2 ^ 52) (e + 1))
         else Finite s m e)"

text \<open>
  \<^verbatim>\<open>float.__repr__\<close> prints the shortest decimal number that \<^verbatim>\<open>float\<close> reads back as
  the same number, the nearest one among those of that length. \<open>pick\<close> tries the two
  decimal numbers of \<open>n\<close> digits next to the number; seventeen digits are enough for
  every binary64 number, and the exact decimal expansion stands behind them. The pair
  \<open>(d, k)\<close> is the decimal number \<open>d \<times> 10\<^sup>k\<close>.
\<close>

definition decimal :: "nat \<times> int \<Rightarrow> rat" where
  "decimal c = of_nat (fst c) * 10 powi (snd c)"

fun find_decpt :: "rat \<Rightarrow> nat \<Rightarrow> int \<Rightarrow> int" where
  "find_decpt q 0 p = p"
| "find_decpt q (Suc n) p = (if q < 10 powi p then p else find_decpt q n (p + 1))"

definition candidates :: "rat \<Rightarrow> nat \<Rightarrow> (nat \<times> int) list" where
  "candidates q n =
     (let k = find_decpt q 632 (- 323) - int n;
          lo = nat \<lfloor>q / 10 powi k\<rfloor>
      in [(lo, k), (lo + 1, k)])"

definition pick :: "bool \<Rightarrow> nat \<Rightarrow> int \<Rightarrow> nat \<Rightarrow> (nat \<times> int) option" where
  "pick s m e n =
     (let q = of_nat m * 2 powi e
      in case filter (\<lambda>c. round_double s (decimal c) = Finite s m e) (candidates q n) of
           [] \<Rightarrow> None
         | [c] \<Rightarrow> Some c
         | lo # hi # cs \<Rightarrow> Some (if q - decimal lo \<le> decimal hi - q then lo else hi))"

fun first_pick :: "bool \<Rightarrow> nat \<Rightarrow> int \<Rightarrow> nat list \<Rightarrow> (nat \<times> int) option" where
  "first_pick s m e [] = None"
| "first_pick s m e (n # ns) =
     (case pick s m e n of Some c \<Rightarrow> Some c | None \<Rightarrow> first_pick s m e ns)"

definition exact_decimal :: "nat \<Rightarrow> int \<Rightarrow> nat \<times> int" where
  "exact_decimal m e = (if 0 \<le> e then (m * 2 ^ nat e, 0) else (m * 5 ^ nat (- e), e))"

fun strip_zeros :: "nat \<Rightarrow> int \<Rightarrow> nat \<times> int" where
  "strip_zeros d k = (if d \<noteq> 0 \<and> d mod 10 = 0 then strip_zeros (d div 10) (k + 1) else (d, k))"

definition shortest_decimal :: "bool \<Rightarrow> nat \<Rightarrow> int \<Rightarrow> nat \<times> int" where
  "shortest_decimal s m e =
     (if m = 0 then (0, 0)
      else case first_pick s m e [1..<18] of
             Some (d, k) \<Rightarrow> strip_zeros d k
           | None \<Rightarrow> (case exact_decimal m e of (d, k) \<Rightarrow> strip_zeros d k))"

text \<open>
  The digits are laid out as \<^verbatim>\<open>repr\<close> does: with \<open>decpt\<close> the position of the
  decimal point counted from the first digit, the exponent form is used when
  \<open>decpt \<le> -4\<close> or \<open>decpt > 16\<close>, with a sign and at least two digits of exponent;
  otherwise the point is put among the digits, with zeros before or after them and
  \<^verbatim>\<open>.0\<close> after a whole number.
\<close>

definition exp_str :: "int \<Rightarrow> string" where
  "exp_str ex =
     (if ex < 0 then ''-'' else ''+'') @
     (if \<bar>ex\<bar> < 10 then ''0'' else '''') @ nat_str (nat \<bar>ex\<bar>)"

definition format_float_short :: "string \<Rightarrow> int \<Rightarrow> string" where
  "format_float_short ds decpt =
     (if decpt \<le> - 4 \<or> 16 < decpt then
        hd ds # (if 1 < length ds then ''.'' @ tl ds else []) @ ''e'' @ exp_str (decpt - 1)
      else if decpt \<le> 0 then ''0.'' @ replicate (nat (- decpt)) CHR ''0'' @ ds
      else if decpt < int (length ds) then take (nat decpt) ds @ ''.'' @ drop (nat decpt) ds
      else ds @ replicate (nat (decpt - int (length ds))) CHR ''0'' @ ''.0'')"

fun float_repr :: "pyfloat \<Rightarrow> string" where
  "float_repr (Finite s m e) =
     (if s then ''-'' else '''') @
     (case shortest_decimal s m e of
        (d, k) \<Rightarrow> format_float_short (nat_str d) (k + int (length (nat_str d))))"
| "float_repr (Infinite s) = (if s then ''-inf'' else ''inf'')"
| "float_repr NaN = ''nan''"

subsection \<open>Keys\<close>

text \<open>\<^verbatim>\<open>str(key)\<close> and \<^verbatim>\<open>type(key).__name__\<close> for the keys of the embedding.\<close>

fun py_str :: "pykey \<Rightarrow> pystr" where
  "py_str (KStr s) = s"
| "py_str (KInt i) = ascii (int_str i)"
| "py_str (KBool b) = (if b then ascii ''True'' else ascii ''False'')"
| "py_str KNone = ascii ''None''"
| "py_str (KFloat x) = ascii (float_repr x)"

fun type_name :: "pykey \<Rightarrow> string" where
  "type_name (KStr s) = ''str''"
| "type_name (KInt i) = ''int''"
| "type_name (KBool b) = ''bool''"
| "type_name KNone = ''NoneType''"
| "type_name (KFloat x) = ''float''"

fun is_str :: "pykey \<Rightarrow> bool" where
  "is_str (KStr s) = True"
| "is_str k = False"

text \<open>
  \<^verbatim>\<open>d[k] = v\<close> on a dict: a key equal to \<open>k\<close> keeps its place and gets the new value,
  a new key goes to the end. Python's \<^verbatim>\<open>==\<close> identifies \<^verbatim>\<open>True\<close> with \<^verbatim>\<open>1\<close>,
  \<^verbatim>\<open>False\<close> with \<^verbatim>\<open>0\<close>, and a finite float with the integer of the same value. An
  infinity or a NaN is equal to no other key; the lookup of a dict finds a NaN that is
  the same object as the key, and the embedding has one NaN object.
\<close>

fun float_value :: "pyfloat \<Rightarrow> rat option" where
  "float_value (Finite s m e) = Some ((if s then - 1 else 1) * of_nat m * 2 powi e)"
| "float_value x = None"

fun key_number :: "pykey \<Rightarrow> rat option" where
  "key_number (KInt i) = Some (of_int i)"
| "key_number (KBool b) = Some (if b then 1 else 0)"
| "key_number (KFloat x) = float_value x"
| "key_number k = None"

definition py_key_eq :: "pykey \<Rightarrow> pykey \<Rightarrow> bool" where
  "py_key_eq a b = (a = b \<or> (key_number a \<noteq> None \<and> key_number a = key_number b))"

fun dict_setitem :: "(pykey \<times> pyval) list \<Rightarrow> pykey \<Rightarrow> pyval \<Rightarrow> (pykey \<times> pyval) list" where
  "dict_setitem [] k v = [(k, v)]"
| "dict_setitem ((k', v') # d) k v =
     (if py_key_eq k' k then (k', v) # d else (k', v') # dict_setitem d k v)"

text \<open>\<^verbatim>\<open>dict(pairs)\<close>: the items are stored one after the other.\<close>

definition set_items :: "(pykey \<times> pyval) list \<Rightarrow> (pykey \<times> pyval) list \<Rightarrow> (pykey \<times> pyval) list" where
  "set_items d kvs = foldl (\<lambda>d kv. dict_setitem d (fst kv) (snd kv)) d kvs"

subsection \<open>\<^verbatim>\<open>_convert_key_to_str\<close>\<close>

text \<open>
  \<^verbatim>\<open>
  def _convert_key_to_str(data):
      if isinstance(data, dict):
          def _str_key(key):
              if not isinstance(key, str):
                  warnings.warn(f"Use of {type(key).__name__} as key is deprecated "
                                "and will be removed in version 2.0", DeprecationWarning)
                  key = str(key)
              return key
          return {_str_key(key): _convert_key_to_str(value) for key, value in data.items()}
      elif isinstance(data, list):
          return [_convert_key_to_str(value) for value in data]
      return data
  \<close>
  The warnings issued are returned with the result, in the order of the calls. The dict
  comprehension is the loop \<open>convert_items\<close>, which stores each converted item into the
  dict built so far; the list comprehension is \<open>convert_elems\<close>.
\<close>

definition str_key :: "pykey \<Rightarrow> warning list \<times> pykey" where
  "str_key key =
     (if \<not> is_str key
      then ([DeprecationWarning (''Use of '' @ type_name key @
               '' as key is deprecated and will be removed in version 2.0'')],
            KStr (py_str key))
      else ([], key))"

fun convert_key_to_str :: "pyval \<Rightarrow> warning list \<times> pyval"
  and convert_items :: "(pykey \<times> pyval) list \<Rightarrow> (pykey \<times> pyval) list
                          \<Rightarrow> warning list \<times> (pykey \<times> pyval) list"
  and convert_elems :: "pyval list \<Rightarrow> warning list \<times> pyval list" where
  "convert_key_to_str (VDict items) =
     (let (ws, d) = convert_items items [] in (ws, VDict d))"
| "convert_key_to_str (VList elems) =
     (let (ws, l) = convert_elems elems in (ws, VList l))"
| "convert_key_to_str VNone = ([], VNone)"
| "convert_key_to_str (VBool b) = ([], VBool b)"
| "convert_key_to_str (VInt i) = ([], VInt i)"
| "convert_key_to_str (VStr s) = ([], VStr s)"
| "convert_items [] acc = ([], acc)"
| "convert_items ((key, val) # items) acc =
     (let (wk, key') = str_key key;
          (wv, val') = convert_key_to_str val;
          (ws, d) = convert_items items (dict_setitem acc key' val')
      in (wk @ wv @ ws, d))"
| "convert_elems [] = ([], [])"
| "convert_elems (val # elems) =
     (let (wv, val') = convert_key_to_str val;
          (ws, l) = convert_elems elems
      in (wv @ ws, val' # l))"
| "convert_key_to_str (VFloat x) = ([], VFloat x)"

text \<open>
  The conversion as the specification words it: the same tree, with every mapping key
  replaced by its string form and everything else left as it is.
\<close>

fun keys_as_str :: "pyval \<Rightarrow> pyval"
  and keys_as_str_items :: "(pykey \<times> pyval) list \<Rightarrow> (pykey \<times> pyval) list"
  and keys_as_str_elems :: "pyval list \<Rightarrow> pyval list" where
  "keys_as_str (VDict items) = VDict (keys_as_str_items items)"
| "keys_as_str (VList elems) = VList (keys_as_str_elems elems)"
| "keys_as_str VNone = VNone"
| "keys_as_str (VBool b) = VBool b"
| "keys_as_str (VInt i) = VInt i"
| "keys_as_str (VStr s) = VStr s"
| "keys_as_str_items [] = []"
| "keys_as_str_items ((key, val) # items) =
     (KStr (py_str key), keys_as_str val) # keys_as_str_items items"
| "keys_as_str_elems [] = []"
| "keys_as_str_elems (val # elems) = keys_as_str val # keys_as_str_elems elems"
| "keys_as_str (VFloat x) = VFloat x"

text \<open>Every key of every mapping of the tree is a string.\<close>

fun all_keys_str :: "pyval \<Rightarrow> bool"
  and all_keys_str_items :: "(pykey \<times> pyval) list \<Rightarrow> bool"
  and all_keys_str_elems :: "pyval list \<Rightarrow> bool" where
  "all_keys_str (VDict items) = all_keys_str_items items"
| "all_keys_str (VList elems) = all_keys_str_elems elems"
| "all_keys_str VNone = True"
| "all_keys_str (VBool b) = True"
| "all_keys_str (VInt i) = True"
| "all_keys_str (VStr s) = True"
| "all_keys_str_items [] = True"
| "all_keys_str_items ((key, val) # items) =
     (is_str key \<and> all_keys_str val \<and> all_keys_str_items items)"
| "all_keys_str_elems [] = True"
| "all_keys_str_elems (val # elems) = (all_keys_str val \<and> all_keys_str_elems elems)"
| "all_keys_str (VFloat x) = True"

text \<open>The number of keys of the tree, at any depth, that are not strings.\<close>

fun count_nonstr_keys :: "pyval \<Rightarrow> nat"
  and count_nonstr_keys_items :: "(pykey \<times> pyval) list \<Rightarrow> nat"
  and count_nonstr_keys_elems :: "pyval list \<Rightarrow> nat" where
  "count_nonstr_keys (VDict items) = count_nonstr_keys_items items"
| "count_nonstr_keys (VList elems) = count_nonstr_keys_elems elems"
| "count_nonstr_keys VNone = 0"
| "count_nonstr_keys (VBool b) = 0"
| "count_nonstr_keys (VInt i) = 0"
| "count_nonstr_keys (VStr s) = 0"
| "count_nonstr_keys_items [] = 0"
| "count_nonstr_keys_items ((key, val) # items) =
     (if is_str key then 0 else 1) + count_nonstr_keys val + count_nonstr_keys_items items"
| "count_nonstr_keys_elems [] = 0"
| "count_nonstr_keys_elems (val # elems) = count_nonstr_keys val + count_nonstr_keys_elems elems"
| "count_nonstr_keys (VFloat x) = 0"

text \<open>No mapping of the tree has two keys with the same string form.\<close>

fun collision_free :: "pyval \<Rightarrow> bool"
  and collision_free_items :: "(pykey \<times> pyval) list \<Rightarrow> bool"
  and collision_free_elems :: "pyval list \<Rightarrow> bool" where
  "collision_free (VDict items) =
     (distinct (map (py_str \<circ> fst) items) \<and> collision_free_items items)"
| "collision_free (VList elems) = collision_free_elems elems"
| "collision_free VNone = True"
| "collision_free (VBool b) = True"
| "collision_free (VInt i) = True"
| "collision_free (VStr s) = True"
| "collision_free_items [] = True"
| "collision_free_items ((key, val) # items) = (collision_free val \<and> collision_free_items items)"
| "collision_free_elems [] = True"
| "collision_free_elems (val # elems) = (collision_free val \<and> collision_free_elems elems)"
| "collision_free (VFloat x) = True"

text \<open>One item of a dict after conversion.\<close>

definition str_item :: "pykey \<times> pyval \<Rightarrow> pykey \<times> pyval" where
  "str_item kv = (KStr (py_str (fst kv)), snd (convert_key_to_str (snd kv)))"

subsection \<open>Exceptions and blobs\<close>

text \<open>
  The exceptions the modelled code meets: \<^verbatim>\<open>IOError\<close> with its \<^verbatim>\<open>errno\<close>,
  \<^verbatim>\<open>TypeError\<close>, \<^verbatim>\<open>json.JSONDecodeError\<close>, \<^verbatim>\<open>RecursionError\<close> and the format error
  of the validators. \<open>Unmodelled\<close> is no Python exception: the decoder returns it on bytes
  whose decoding is outside the embedding (a byte that is zero or not ASCII), where
  Python goes on with another encoding.

  A blob is what \<^verbatim>\<open>_load_from_file\<close> returns and what the buffer holds: bytes, or
  Python's \<^verbatim>\<open>None\<close>.
\<close>

datatype pyerror = IOError int | TypeError | JSONDecodeError | RecursionError | FormatError | Unmodelled

datatype blob = PyNone | Bytes string

subsection \<open>\<^verbatim>\<open>json.dumps(data).encode()\<close>\<close>

text \<open>
  The encoder of the standard library with its defaults: \<^verbatim>\<open>ensure_ascii\<close>, the
  separators \<^verbatim>\<open>', '\<close> and \<^verbatim>\<open>': '\<close>, items in the dict's order. A code point outside
  the printable ASCII range is written \<^verbatim>\<open>\uXXXX\<close>, one above \<^verbatim>\<open>0xFFFF\<close> as a surrogate
  pair (\<^verbatim>\<open>0xd800 | ((v >> 10) & 0x3ff)\<close> and \<^verbatim>\<open>0xdc00 | (v & 0x3ff)\<close>, written here
  with \<open>div\<close> and \<open>mod\<close>). The output is ASCII, so that \<^verbatim>\<open>.encode()\<close> maps each
  character to the byte of the same code.
\<close>

definition quote_char :: char where "quote_char = CHR 0x22"
definition backslash_char :: char where "backslash_char = CHR 0x5C"

definition hex_char :: "nat \<Rightarrow> char" where
  "hex_char d = (if d < 10 then char_of (48 + d) else char_of (87 + d))"

definition hex4 :: "nat \<Rightarrow> string" where
  "hex4 n = [hex_char (n div 4096 mod 16), hex_char (n div 256 mod 16), hex_char (n div 16 mod 16), hex_char (n mod 16)]"

definition escape_char :: "nat \<Rightarrow> string" where
  "escape_char n =
     (if n = 34 then [backslash_char, quote_char]
      else if n = 92 then [backslash_char, backslash_char]
      else if n = 10 then [backslash_char, CHR ''n'']
      else if n = 13 then [backslash_char, CHR ''r'']
      else if n = 9 then [backslash_char, CHR ''t'']
      else if n = 8 then [backslash_char, CHR ''b'']
      else if n = 12 then [backslash_char, CHR ''f'']
      else if 32 \<le> n \<and> n \<le> 126 then [char_of n]
      else if n < 0x10000 then backslash_char # CHR ''u'' # hex4 n
      else (let v = n - 0x10000;
                s1 = 0xd800 + v div 1024 mod 1024;
                s2 = 0xdc00 + v mod 1024
            in backslash_char # CHR ''u'' # hex4 s1 @ backslash_char # CHR ''u'' # hex4 s2))"

definition encode_basestring_ascii :: "pystr \<Rightarrow> string" where
  "encode_basestring_ascii s = quote_char # concat (map escape_char s) @ [quote_char]"

text \<open>
  \<^verbatim>\<open>floatstr\<close> of the encoder: \<^verbatim>\<open>float.__repr__\<close> for a finite number, and the
  names \<^verbatim>\<open>NaN\<close>, \<^verbatim>\<open>Infinity\<close> and \<^verbatim>\<open>-Infinity\<close> otherwise.
\<close>

fun floatstr :: "pyfloat \<Rightarrow> string" where
  "floatstr NaN = ''NaN''"
| "floatstr (Infinite s) = (if s then ''-Infinity'' else ''Infinity'')"
| "floatstr (Finite s m e) = float_repr (Finite s m e)"

fun dumps_key :: "pykey \<Rightarrow> string" where
  "dumps_key (KStr s) = encode_basestring_ascii s"
| "dumps_key (KInt i) = encode_basestring_ascii (ascii (int_str i))"
| "dumps_key (KBool b) = encode_basestring_ascii (ascii (if b then ''true'' else ''false''))"
| "dumps_key KNone = encode_basestring_ascii (ascii ''null'')"
| "dumps_key (KFloat x) = encode_basestring_ascii (ascii (floatstr x))"

fun json_dumps :: "pyval \<Rightarrow> string"
  and dumps_items :: "(pykey \<times> pyval) list \<Rightarrow> string"
  and dumps_elems :: "pyval list \<Rightarrow> string" where
  "json_dumps VNone = ''null''"
| "json_dumps (VBool b) = (if b then ''true'' else ''false'')"
| "json_dumps (VInt i) = int_str i"
| "json_dumps (VStr s) = encode_basestring_ascii s"
| "json_dumps (VList []) = ''[]''"
| "json_dumps (VList (val # elems)) = ''['' @ json_dumps val @ dumps_elems elems"
| "json_dumps (VDict []) = ''{}''"
| "json_dumps (VDict ((key, val) # items)) =
     ''{'' @ dumps_key key @ '': '' @ json_dumps val @ dumps_items items"
| "dumps_items [] = ''}''"
| "dumps_items ((key, val) # items) =
     '', '' @ dumps_key key @ '': '' @ json_dumps val @ dumps_items items"
| "dumps_elems [] = '']''"
| "dumps_elems (val # elems) = '', '' @ json_dumps val @ dumps_elems elems"
| "json_dumps (VFloat x) = floatstr x"

subsection \<open>\<^verbatim>\<open>json.loads(blob)\<close>\<close>

text \<open>
  The decoder of the standard library (\<^verbatim>\<open>json.decoder\<close>, \<^verbatim>\<open>json.scanner\<close>):
  \<^verbatim>\<open>scanstring\<close> in strict mode, the number pattern
  \<^verbatim>\<open>(-?(?:0|[1-9]\d*))(\.\d+)?([eE][-+]?\d+)?\<close>, \<^verbatim>\<open>scan_once\<close>, \<^verbatim>\<open>JSONArray\<close> and
  \<^verbatim>\<open>JSONObject\<close>. A number with a fraction or an exponent is read by \<^verbatim>\<open>float\<close>, one
  without by \<^verbatim>\<open>int\<close>. Each function takes the text that is left and returns the value with
  the rest. The three scanners call each other, so they carry the depth of calls still
  allowed, and \<open>json_loads\<close> starts them with more than the text is long.
\<close>

definition is_ws :: "char \<Rightarrow> bool" where
  "is_ws c = (c = CHR '' '' \<or> c = CHR 0x09 \<or> c = CHR 0x0A \<or> c = CHR 0x0D)"

definition skip_ws :: "string \<Rightarrow> string" where
  "skip_ws s = dropWhile is_ws s"

definition is_digit :: "char \<Rightarrow> bool" where
  "is_digit c = (48 \<le> (of_char c :: nat) \<and> (of_char c :: nat) \<le> 57)"

definition hex_val :: "char \<Rightarrow> nat option" where
  "hex_val c =
     (let n = of_char c in
      if 48 \<le> n \<and> n \<le> 57 then Some (n - 48)
      else if 97 \<le> n \<and> n \<le> 102 then Some (n - 87)
      else if 65 \<le> n \<and> n \<le> 70 then Some (n - 55)
      else None)"

fun decode_uXXXX :: "string \<Rightarrow> nat option" where
  "decode_uXXXX (a # b # c # d # rest) =
     (case (hex_val a, hex_val b, hex_val c, hex_val d) of
        (Some x, Some y, Some z, Some w) \<Rightarrow> Some (((x * 16 + y) * 16 + z) * 16 + w)
      | _ \<Rightarrow> None)"
| "decode_uXXXX s = None"

definition backslash :: "char \<Rightarrow> nat option" where
  "backslash e =
     (if e = quote_char then Some 34
      else if e = backslash_char then Some 92
      else if e = CHR ''/'' then Some 47
      else if e = CHR ''b'' then Some 8
      else if e = CHR ''f'' then Some 12
      else if e = CHR ''n'' then Some 10
      else if e = CHR ''r'' then Some 13
      else if e = CHR ''t'' then Some 9
      else None)"

definition prepend :: "nat \<Rightarrow> pyerror + (pystr \<times> string) \<Rightarrow> pyerror + (pystr \<times> string)" where
  "prepend ch r = (case r of Inl e \<Rightarrow> Inl e | Inr (s, rest) \<Rightarrow> Inr (ch # s, rest))"

fun scanstring :: "string \<Rightarrow> pyerror + (pystr \<times> string)" where
  "scanstring [] = Inl JSONDecodeError"
| "scanstring (c # cs) =
     (if c = quote_char then Inr ([], cs)
      else if c = backslash_char then
        (case cs of
           [] \<Rightarrow> Inl JSONDecodeError
         | e # cs' \<Rightarrow>
             if e = CHR ''u'' then
               (case decode_uXXXX cs' of
                  None \<Rightarrow> Inl JSONDecodeError
                | Some uni \<Rightarrow>
                    if 0xd800 \<le> uni \<and> uni \<le> 0xdbff
                       \<and> take 2 (drop 4 cs') = [backslash_char, CHR ''u'']
                       \<and> 6 < length (drop 4 cs')
                    then
                      (case decode_uXXXX (drop 6 cs') of
                         None \<Rightarrow> Inl JSONDecodeError
                       | Some uni2 \<Rightarrow>
                           if 0xdc00 \<le> uni2 \<and> uni2 \<le> 0xdfff
                           then prepend (0x10000 + ((uni - 0xd800) * 1024 + (uni2 - 0xdc00)))
                                  (scanstring (drop 10 cs'))
                           else prepend uni (scanstring (drop 4 cs')))
                    else prepend uni (scanstring (drop 4 cs')))
             else
               (case backslash e of
                  None \<Rightarrow> Inl JSONDecodeError
                | Some ch \<Rightarrow> prepend ch (scanstring cs')))
      else if (of_char c :: nat) < 32 then Inl JSONDecodeError
      else prepend (of_char c) (scanstring cs))"

definition digits_val :: "string \<Rightarrow> nat" where
  "digits_val ds = foldl (\<lambda>a c. 10 * a + (of_char c - 48)) 0 ds"


definition match_integer :: "string \<Rightarrow> (string \<times> string) option" where
  "match_integer s =
     (case s of
        [] \<Rightarrow> None
      | d # r \<Rightarrow>
          if d = CHR ''0'' then Some ([d], r)
          else if is_digit d then Some (d # takeWhile is_digit r, dropWhile is_digit r)
          else None)"

text \<open>
  The groups \<^verbatim>\<open>(\.\d+)?\<close> and \<^verbatim>\<open>([eE][-+]?\d+)?\<close> of the number pattern: the digits
  of the fraction, the exponent if there is one, and the text after the group.
\<close>

definition match_frac :: "string \<Rightarrow> string \<times> string" where
  "match_frac s =
     (case s of
        c # d # r \<Rightarrow>
          if c = CHR ''.'' \<and> is_digit d
          then (takeWhile is_digit (d # r), dropWhile is_digit (d # r))
          else ([], s)
      | _ \<Rightarrow> ([], s))"

definition match_exp :: "string \<Rightarrow> int option \<times> string" where
  "match_exp s =
     (case s of
        c # d # r \<Rightarrow>
          if c = CHR ''e'' \<or> c = CHR ''E'' then
            if is_digit d
            then (Some (int (digits_val (takeWhile is_digit (d # r)))), dropWhile is_digit (d # r))
            else if (d = CHR ''+'' \<or> d = CHR ''-'') \<and> r \<noteq> [] \<and> is_digit (hd r)
            then (Some ((if d = CHR ''-'' then - 1 else 1) * int (digits_val (takeWhile is_digit r))),
                  dropWhile is_digit r)
            else (None, s)
          else (None, s)
      | _ \<Rightarrow> (None, s))"

text \<open>
  \<^verbatim>\<open>float\<close> on the text of a number: the number nearest to the digits of the integer
  part \<open>ip\<close> and of the fraction \<open>fp\<close>, times ten to the exponent.
\<close>

definition float_of_parts :: "bool \<Rightarrow> string \<Rightarrow> string \<Rightarrow> int \<Rightarrow> pyfloat" where
  "float_of_parts neg ip fp ex =
     round_double neg (of_nat (digits_val (ip @ fp)) * 10 powi (ex - int (length fp)))"

definition match_number :: "string \<Rightarrow> (pyval \<times> string) option" where
  "match_number s =
     (let neg = (s \<noteq> [] \<and> hd s = CHR ''-'')
      in case match_integer (if neg then tl s else s) of
           None \<Rightarrow> None
         | Some (ds, rest) \<Rightarrow>
             (case match_frac rest of
                (fs, rest1) \<Rightarrow>
                  (case match_exp rest1 of
                     (ex, rest2) \<Rightarrow>
                       if fs = [] \<and> ex = None
                       then Some (VInt (if neg then - int (digits_val ds) else int (digits_val ds)), rest)
                       else Some (VFloat (float_of_parts neg ds fs (case ex of None \<Rightarrow> 0 | Some x \<Rightarrow> x)),
                                  rest2))))"

fun scan_once :: "nat \<Rightarrow> string \<Rightarrow> pyerror + (pyval \<times> string)"
  and JSONArray :: "nat \<Rightarrow> string \<Rightarrow> pyerror + (pyval list \<times> string)"
  and JSONObject :: "nat \<Rightarrow> string \<Rightarrow> pyerror + ((pykey \<times> pyval) list \<times> string)" where
  "scan_once 0 s = Inl RecursionError"
| "scan_once (Suc n) [] = Inl JSONDecodeError"
| "scan_once (Suc n) (c # cs) =
     (if c = quote_char then
        (case scanstring cs of Inl e \<Rightarrow> Inl e | Inr (str, rest) \<Rightarrow> Inr (VStr str, rest))
      else if c = CHR ''{'' then
        (case skip_ws cs of
           [] \<Rightarrow> Inl JSONDecodeError
         | c' # rest \<Rightarrow>
             if c' = CHR ''}'' then Inr (VDict [], rest)
             else if c' = quote_char then
               (case JSONObject n rest of
                  Inl e \<Rightarrow> Inl e
                | Inr (pairs, rest') \<Rightarrow> Inr (VDict (set_items [] pairs), rest'))
             else Inl JSONDecodeError)
      else if c = CHR ''['' then
        (case skip_ws cs of
           [] \<Rightarrow> Inl JSONDecodeError
         | c' # rest \<Rightarrow>
             if c' = CHR '']'' then Inr (VList [], rest)
             else
               (case JSONArray n (c' # rest) of
                  Inl e \<Rightarrow> Inl e
                | Inr (values, rest') \<Rightarrow> Inr (VList values, rest')))
      else if c = CHR ''n'' \<and> take 4 (c # cs) = ''null'' then Inr (VNone, drop 4 (c # cs))
      else if c = CHR ''t'' \<and> take 4 (c # cs) = ''true'' then Inr (VBool True, drop 4 (c # cs))
      else if c = CHR ''f'' \<and> take 5 (c # cs) = ''false'' then Inr (VBool False, drop 5 (c # cs))
      else
        (case match_number (c # cs) of
           Some r \<Rightarrow> Inr r
         | None \<Rightarrow>
             if take 3 (c # cs) = ''NaN'' then Inr (VFloat NaN, drop 3 (c # cs))
             else if take 8 (c # cs) = ''Infinity'' then Inr (VFloat (Infinite False), drop 8 (c # cs))
             else if take 9 (c # cs) = ''-Infinity'' then Inr (VFloat (Infinite True), drop 9 (c # cs))
             else Inl JSONDecodeError))"
| "JSONArray 0 s = Inl RecursionError"
| "JSONArray (Suc n) s =
     (case scan_once n s of
        Inl e \<Rightarrow> Inl e
      | Inr (val, rest) \<Rightarrow>
          (case skip_ws rest of
             [] \<Rightarrow> Inl JSONDecodeError
           | c # rest' \<Rightarrow>
               if c = CHR '']'' then Inr ([val], rest')
               else if c = CHR '','' then
                 (case JSONArray n (skip_ws rest') of
                    Inl e \<Rightarrow> Inl e
                  | Inr (values, rest'') \<Rightarrow> Inr (val # values, rest''))
               else Inl JSONDecodeError))"
| "JSONObject 0 s = Inl RecursionError"
| "JSONObject (Suc n) s =
     (case scanstring s of
        Inl e \<Rightarrow> Inl e
      | Inr (key, rest) \<Rightarrow>
          (case skip_ws rest of
             [] \<Rightarrow> Inl JSONDecodeError
           | c # rest1 \<Rightarrow>
               if c \<noteq> CHR '':'' then Inl JSONDecodeError
               else
                 (case scan_once n (skip_ws rest1) of
                    Inl e \<Rightarrow> Inl e
                  | Inr (val, rest2) \<Rightarrow>
                      (case skip_ws rest2 of
                         [] \<Rightarrow> Inl JSONDecodeError
                       | c' # rest3 \<Rightarrow>
                           if c' = CHR ''}'' then Inr ([(KStr key, val)], rest3)
                           else if c' = CHR '','' then
                             (case skip_ws rest3 of
                                [] \<Rightarrow> Inl JSONDecodeError
                              | q # rest4 \<Rightarrow>
                                  if q \<noteq> quote_char then Inl JSONDecodeError
                                  else
                                    (case JSONObject n rest4 of
                                       Inl e \<Rightarrow> Inl e
                                     | Inr (pairs, rest5) \<Rightarrow> Inr ((KStr key, val) # pairs, rest5)))
                           else Inl JSONDecodeError))))"

text \<open>
  \<^verbatim>\<open>json.loads\<close> on \<^verbatim>\<open>None\<close> raises \<^verbatim>\<open>TypeError\<close>. Bytes are decoded first, as
  UTF-8 when no byte is zero, which is the identity on ASCII text; then leading
  whitespace is skipped, one value is scanned, and anything but whitespace after it is an
  error.
\<close>

definition is_ascii_char :: "char \<Rightarrow> bool" where
  "is_ascii_char c = (0 < (of_char c :: nat) \<and> (of_char c :: nat) < 128)"

definition is_ascii_text :: "string \<Rightarrow> bool" where
  "is_ascii_text b = list_all is_ascii_char b"

definition json_loads :: "blob \<Rightarrow> pyerror + pyval" where
  "json_loads blob =
     (case blob of
        PyNone \<Rightarrow> Inl TypeError
      | Bytes b \<Rightarrow>
          if \<not> is_ascii_text b then Inl Unmodelled
          else
            (case scan_once (Suc (length b)) (skip_ws b) of
               Inl e \<Rightarrow> Inl e
             | Inr (obj, rest) \<Rightarrow> if skip_ws rest = [] then Inr obj else Inl JSONDecodeError))"

subsection \<open>The file system\<close>

text \<open>
  The disk maps a path to what is there: nothing, a regular file with its bytes, or a node
  on which the system calls used here fail with the given \<^verbatim>\<open>errno\<close> (a directory, a file
  without permission, a failing device). Every \<^verbatim>\<open>open\<close> and \<^verbatim>\<open>os.replace\<close> is
  recorded in \<open>io_log\<close>, so that theorems can say which disk accesses a call made.

  \<^verbatim>\<open>open(p, 'rb')\<close> with \<^verbatim>\<open>read()\<close> gives the bytes or the \<^verbatim>\<open>errno\<close> of the
  \<^verbatim>\<open>IOError\<close>; \<^verbatim>\<open>open(p, 'wb')\<close> creates or truncates; \<^verbatim>\<open>os.replace(src, dst)\<close>
  renames in one step.
\<close>

type_synonym path = string

datatype fsnode = Regular string | Failing int

type_synonym disk = "path \<rightharpoonup> fsnode"

definition ENOENT :: int where
  "ENOENT = 2"

datatype io_event = OpenRead path | OpenWrite path | Replace path path

datatype fingerprint = Fingerprint blob

text \<open>
  The state outside the collection object: the disk and its log, the buffer
  (\<^verbatim>\<open>_cache\<close>, shared by all instances; Python's dict takes the key \<^verbatim>\<open>None\<close> too), the
  fingerprints stored with it, the counter of the global buffered mode, and the warnings
  issued so far. \<open>Fingerprint b\<close> stands for the digest of the blob \<open>b\<close>.
\<close>

record world =
  disk :: disk
  io_log :: "io_event list"
  cache :: "path option \<rightharpoonup> blob"
  cache_hashes :: "path option \<rightharpoonup> fingerprint"
  buffered_mode :: int
  issued :: "warning list"

definition open_rb :: "disk \<Rightarrow> path \<Rightarrow> int + string" where
  "open_rb d p =
     (case d p of
        None \<Rightarrow> Inl ENOENT
      | Some (Regular b) \<Rightarrow> Inr b
      | Some (Failing e) \<Rightarrow> Inl e)"

definition open_wb :: "path \<Rightarrow> world \<Rightarrow> (pyerror + unit) \<times> world" where
  "open_wb p w =
     (let w' = w\<lparr>io_log := io_log w @ [OpenWrite p]\<rparr>
      in case disk w p of
           Some (Failing e) \<Rightarrow> (Inl (IOError e), w')
         | _ \<Rightarrow> (Inr (), w'\<lparr>disk := (disk w)(p \<mapsto> Regular [])\<rparr>))"

definition file_write :: "path \<Rightarrow> string \<Rightarrow> world \<Rightarrow> world" where
  "file_write p b w = w\<lparr>disk := (disk w)(p \<mapsto> Regular b)\<rparr>"

definition os_replace :: "path \<Rightarrow> path \<Rightarrow> world \<Rightarrow> (pyerror + unit) \<times> world" where
  "os_replace src dst w =
     (let w' = w\<lparr>io_log := io_log w @ [Replace src dst]\<rparr>
      in case disk w src of
           None \<Rightarrow> (Inl (IOError ENOENT), w')
         | Some node \<Rightarrow>
             (case disk w dst of
                Some (Failing e) \<Rightarrow> (Inl (IOError e), w')
              | _ \<Rightarrow>
                  if src = dst then (Inr (), w')
                  else (Inr (), w'\<lparr>disk := (disk w)(dst \<mapsto> node, src := None)\<rparr>)))"

text \<open>
  \<^verbatim>\<open>os.path.split\<close> and \<^verbatim>\<open>os.path.join\<close> of \<^verbatim>\<open>posixpath\<close>. With
  \<^verbatim>\<open>i = p.rfind(sep) + 1\<close>, \<open>path_head\<close> is \<^verbatim>\<open>p[:i]\<close>, the path up to and with the last
  separator, and \<open>path_tail\<close> is \<^verbatim>\<open>p[i:]\<close>; \<open>rstrip_sep\<close> is \<^verbatim>\<open>head.rstrip(sep)\<close>,
  applied to a head that does not consist of separators only.
\<close>

definition sep :: char where
  "sep = CHR ''/''"

definition path_head :: "path \<Rightarrow> path" where
  "path_head p = rev (dropWhile (\<lambda>c. c \<noteq> sep) (rev p))"

definition path_tail :: "path \<Rightarrow> path" where
  "path_tail p = rev (takeWhile (\<lambda>c. c \<noteq> sep) (rev p))"

definition rstrip_sep :: "path \<Rightarrow> path" where
  "rstrip_sep h = rev (dropWhile (\<lambda>c. c = sep) (rev h))"

definition os_path_split :: "path \<Rightarrow> path \<times> path" where
  "os_path_split p =
     (let head = path_head p;
          tail = path_tail p
      in (if head \<noteq> [] \<and> head \<noteq> replicate (length head) sep then rstrip_sep head else head,
          tail))"

definition os_path_join :: "path \<Rightarrow> path \<Rightarrow> path" where
  "os_path_join a b =
     (if b \<noteq> [] \<and> hd b = sep then b
      else if a = [] \<or> last a = sep then a @ b
      else a @ sep # b)"

subsection \<open>The buffer\<close>

text \<open>
  Modelled from the spec: \<^verbatim>\<open>_in_buffered_mode\<close> (synced\_collection.py) and
  \<^verbatim>\<open>FileBuffer._store_to_buffer\<close> (buffers.py) are not among the source files. The
  buffered-mode predicate is "true when a global scope counter is > 0";
  \<^verbatim>\<open>store_to_buffer(path, bytes, store_fingerprint=false)\<close> "installs/overwrites the cached
  bytes for \<^verbatim>\<open>path\<close>; optionally records a fingerprint of the bytes".
\<close>

definition in_buffered_mode :: "world \<Rightarrow> bool" where
  "in_buffered_mode w = (buffered_mode w > 0)"

definition store_to_buffer :: "path option \<Rightarrow> blob \<Rightarrow> bool \<Rightarrow> world \<Rightarrow> world" where
  "store_to_buffer fname b store_hash w =
     w\<lparr>cache := (cache w)(fname \<mapsto> b),
       cache_hashes := (if store_hash then (cache_hashes w)(fname \<mapsto> Fingerprint b)
                        else cache_hashes w)\<rparr>"

subsection \<open>\<^verbatim>\<open>JSONCollection\<close>\<close>

text \<open>
  \<^verbatim>\<open>
  def __init__(self, filename=None, write_concern=False, **kwargs):
      self._filename = None if filename is None else os.path.realpath(filename)
      self._write_concern = write_concern
      kwargs['name'] = filename
      super().__init__(**kwargs)
      self._supports_buffering = True
  \<close>
  \<^verbatim>\<open>os.path.realpath\<close> depends on the links of the file system and is a parameter.
  Modelled from the spec: \<^verbatim>\<open>SyncedCollection.__init__\<close> and \<^verbatim>\<open>to_base\<close>
  (synced\_collection.py) are not among the source files. The instance has a per-instance
  buffering switch \<open>buffered\<close> (a counter, off at first) and an in-memory tree \<open>data\<close>,
  which is the null document before the first load; \<^verbatim>\<open>to_base()\<close> "produces a plain
  nested structure" of the tree, which is the tree itself here.
\<close>

record JSONCollection =
  filename :: "path option"
  write_concern :: bool
  name :: "path option"
  supports_buffering :: bool
  buffered :: int
  data :: pyval

definition JSONCollection_init :: "(path \<Rightarrow> path) \<Rightarrow> path option \<Rightarrow> bool \<Rightarrow> JSONCollection" where
  "JSONCollection_init realpath fname wc =
     \<lparr>filename = (case fname of None \<Rightarrow> None | Some f \<Rightarrow> Some (realpath f)),
      write_concern = wc,
      name = fname,
      supports_buffering = True,
      buffered = 0,
      data = VNone\<rparr>"

definition to_base :: "JSONCollection \<Rightarrow> pyval" where
  "to_base self = data self"

text \<open>
  \<^verbatim>\<open>
  def _load_from_file(self):
      try:
          with open(self._filename, 'rb') as file:
              return file.read()
      except IOError as error:
          if error.errno == errno.ENOENT:
              return json.dumps(None).encode()
  \<close>
  \<^verbatim>\<open>open(None, 'rb')\<close> raises \<^verbatim>\<open>TypeError\<close>, which the \<^verbatim>\<open>except\<close> clause does not
  catch. An \<^verbatim>\<open>IOError\<close> with another \<^verbatim>\<open>errno\<close> is caught, the \<^verbatim>\<open>if\<close> has no
  \<^verbatim>\<open>else\<close>, and the function ends without a \<^verbatim>\<open>return\<close>: it returns \<^verbatim>\<open>None\<close>.
\<close>

definition JSONCollection_load_from_file :: "JSONCollection \<Rightarrow> world \<Rightarrow> (pyerror + blob) \<times> world" where
  "JSONCollection_load_from_file self w =
     (case filename self of
        None \<Rightarrow> (Inl TypeError, w)
      | Some p \<Rightarrow>
          (let w' = w\<lparr>io_log := io_log w @ [OpenRead p]\<rparr>
           in case open_rb (disk w) p of
                Inr b \<Rightarrow> (Inr (Bytes b), w')
              | Inl errno \<Rightarrow>
                  if errno = ENOENT then (Inr (Bytes (json_dumps VNone)), w')
                  else (Inr PyNone, w')))"

text \<open>
  \<^verbatim>\<open>
  def _load(self):
      if _in_buffered_mode() or self._buffered:
          if self._filename in self._cache:
              blob = self._cache[self._filename]
          else:
              blob = self._load_from_file()
              self._store_to_buffer(self._filename, blob, store_hash=True)
      else:
          blob = self._load_from_file()
      return json.loads(blob)
  \<close>
\<close>

definition JSONCollection_load :: "JSONCollection \<Rightarrow> world \<Rightarrow> (pyerror + pyval) \<times> world" where
  "JSONCollection_load self w =
     (if in_buffered_mode w \<or> buffered self \<noteq> 0 then
        (case cache w (filename self) of
           Some b \<Rightarrow> (json_loads b, w)
         | None \<Rightarrow>
             (case JSONCollection_load_from_file self w of
                (Inl e, w') \<Rightarrow> (Inl e, w')
              | (Inr b, w') \<Rightarrow> (json_loads b, store_to_buffer (filename self) b True w')))
      else
        (case JSONCollection_load_from_file self w of
           (Inl e, w') \<Rightarrow> (Inl e, w')
         | (Inr b, w') \<Rightarrow> (json_loads b, w')))"

text \<open>
  \<^verbatim>\<open>
  @staticmethod
  def _write_to_file(filename, blob, write_concern=True):
      if write_concern:
          dirname, fn = os.path.split(filename)
          fn_tmp = os.path.join(dirname, f'._{uuid.uuid4()}_{fn}')
          with open(fn_tmp, 'wb') as tmpfile:
              tmpfile.write(blob)
          os.replace(fn_tmp, filename)
      else:
          with open(filename, 'wb') as file:
              file.write(blob)
  \<close>
  The random \<^verbatim>\<open>uuid.uuid4()\<close>, as text, is the argument \<open>token\<close>.
  \<open>write_to_file_trace\<close> is the same code, listing every state the disk goes through:
  the state before, the file being written after any number of its bytes has reached
  it, and the state after the replacement.
\<close>

definition tmp_base :: "string \<Rightarrow> path \<Rightarrow> path" where
  "tmp_base token fn = ''._'' @ token @ ''_'' @ fn"

definition tmp_name :: "string \<Rightarrow> path \<Rightarrow> path" where
  "tmp_name token p =
     (let (dirname, fn) = os_path_split p
      in os_path_join dirname (tmp_base token fn))"

definition JSONCollection_write_to_file ::
    "string \<Rightarrow> path option \<Rightarrow> string \<Rightarrow> bool \<Rightarrow> world \<Rightarrow> (pyerror + unit) \<times> world" where
  "JSONCollection_write_to_file token fname b wc w =
     (case fname of
        None \<Rightarrow> (Inl TypeError, w)
      | Some p \<Rightarrow>
          if wc then
            (let fn_tmp = tmp_name token p
             in case open_wb fn_tmp w of
                  (Inl e, w') \<Rightarrow> (Inl e, w')
                | (Inr u, w') \<Rightarrow> os_replace fn_tmp p (file_write fn_tmp b w'))
          else
            (case open_wb p w of
               (Inl e, w') \<Rightarrow> (Inl e, w')
             | (Inr u, w') \<Rightarrow> (Inr (), file_write p b w')))"

definition writing :: "path \<Rightarrow> string \<Rightarrow> disk \<Rightarrow> disk list" where
  "writing p b d = map (\<lambda>n. d(p \<mapsto> Regular (take n b))) [0..<Suc (length b)]"

definition write_to_file_trace :: "string \<Rightarrow> path \<Rightarrow> string \<Rightarrow> bool \<Rightarrow> world \<Rightarrow> disk list" where
  "write_to_file_trace token p b wc w =
     (if wc then
        (let fn_tmp = tmp_name token p
         in case open_wb fn_tmp w of
              (Inl e, w') \<Rightarrow> [disk w]
            | (Inr u, w') \<Rightarrow>
                disk w # writing fn_tmp b (disk w') @
                [disk (snd (os_replace fn_tmp p (file_write fn_tmp b w')))])
      else
        (case open_wb p w of
           (Inl e, w') \<Rightarrow> [disk w]
         | (Inr u, w') \<Rightarrow> disk w # writing p b (disk w')))"

text \<open>
  \<^verbatim>\<open>
  def _sync(self):
      data = self.to_base()
      data = _convert_key_to_str(data)
      blob = json.dumps(data).encode()
      if _in_buffered_mode() or self._buffered > 0:
          self._store_to_buffer(self._filename, blob)
      else:
          self._write_to_file(self._filename, blob, self._write_concern)
  \<close>
\<close>

definition JSONCollection_sync :: "string \<Rightarrow> JSONCollection \<Rightarrow> world \<Rightarrow> (pyerror + unit) \<times> world" where
  "JSONCollection_sync token self w =
     (let (ws, d) = convert_key_to_str (to_base self);
          b = json_dumps d;
          w' = w\<lparr>issued := issued w @ ws\<rparr>
      in if in_buffered_mode w' \<or> buffered self > 0
         then (Inr (), store_to_buffer (filename self) (Bytes b) False w')
         else JSONCollection_write_to_file token (filename self) b (write_concern self) w')"

text \<open>
  Modelled from the spec: \<^verbatim>\<open>SyncedCollection.sync\<close>, the validator chain and the
  mutating operations of the views (synced\_collection.py, validators.py,
  syncedattrdict.py, synced\_list.py) are not among the source files. "Before a
  \<^verbatim>\<open>sync()\<close> write is handed to the backend, every registered validator runs against the
  \<^verbatim>\<open>to_base()\<close> output in registration order; the first validator that signals a
  violation aborts the sync with a format error." A validator is a predicate that holds
  of the trees it accepts. "A mutation on a view type updates the in-memory tree, then
  invokes sync."
\<close>

fun run_validators :: "(pyval \<Rightarrow> bool) list \<Rightarrow> pyval \<Rightarrow> pyerror + unit" where
  "run_validators [] t = Inr ()"
| "run_validators (v # vs) t = (if v t then run_validators vs t else Inl FormatError)"

definition SyncedCollection_sync ::
    "(pyval \<Rightarrow> bool) list \<Rightarrow> string \<Rightarrow> JSONCollection \<Rightarrow> world \<Rightarrow> (pyerror + unit) \<times> world" where
  "SyncedCollection_sync validators token self w =
     (case run_validators validators (to_base self) of
        Inl e \<Rightarrow> (Inl e, w)
      | Inr u \<Rightarrow> JSONCollection_sync token self w)"

definition SyncedCollection_mutate ::
    "(pyval \<Rightarrow> bool) list \<Rightarrow> string \<Rightarrow> (pyval \<Rightarrow> pyval) \<Rightarrow> JSONCollection \<Rightarrow> world
       \<Rightarrow> (pyerror + unit) \<times> JSONCollection \<times> world" where
  "SyncedCollection_mutate validators token f self w =
     (let self' = self\<lparr>data := f (data self)\<rparr>;
          (r, w') = SyncedCollection_sync validators token self' w
      in (r, self', w'))"

text \<open>
  A sequence of loads and syncs on one instance. Neither method assigns an attribute of
  \<^verbatim>\<open>self\<close>; the state after each call is the instance with the world the call leaves.
\<close>

datatype op = Load | Sync string

fun step :: "JSONCollection \<times> world \<Rightarrow> op \<Rightarrow> JSONCollection \<times> world" where
  "step (self, w) Load = (self, snd (JSONCollection_load self w))"
| "step (self, w) (Sync token) = (self, snd (JSONCollection_sync token self w))"

definition run :: "op list \<Rightarrow> JSONCollection \<times> world \<Rightarrow> JSONCollection \<times> world" where
  "run ops st = foldl step st ops"

subsection \<open>Notions used in the statements\<close>

text \<open>
  The world with the given disk, an empty buffer and the buffered mode off; the bytes
  \<^verbatim>\<open>_sync\<close> computes for an instance, and the world once the warnings of its key
  conversion are issued; a \<^verbatim>\<open>realpath\<close> for a file system in which
  \<^verbatim>\<open>/link/doc.json\<close> is a symbolic link to \<^verbatim>\<open>/d/doc.json\<close>.
\<close>

definition world0 :: "disk \<Rightarrow> world" where
  "world0 d = \<lparr>disk = d, io_log = [], cache = Map.empty, cache_hashes = Map.empty,
               buffered_mode = 0, issued = []\<rparr>"

definition sync_blob :: "JSONCollection \<Rightarrow> string" where
  "sync_blob self = json_dumps (snd (convert_key_to_str (to_base self)))"

definition sync_warned :: "JSONCollection \<Rightarrow> world \<Rightarrow> world" where
  "sync_warned self w = w\<lparr>issued := issued w @ fst (convert_key_to_str (to_base self))\<rparr>"

definition link_realpath :: "path \<Rightarrow> path" where
  "link_realpath p = (if p = ''/link/doc.json'' then ''/d/doc.json'' else p)"

subsection \<open>Notions used for the round trip\<close>

text \<open>
  A code point of a Unicode text: below \<^verbatim>\<open>0x110000\<close> and not a surrogate. A tree is a
  \<open>json_tree\<close>, a tree that JSON can represent, when all its strings, values and string
  keys alike, consist of such code points and all its float values are finite numbers of
  the binary64 format: JSON has no text for an infinity or a NaN. A \<open>plain_tree\<close> is
  moreover a tree as \<^verbatim>\<open>json.loads\<close> returns them: all keys are strings, and the keys
  of a dict are distinct.
\<close>

definition valid_code_point :: "nat \<Rightarrow> bool" where
  "valid_code_point n = (n < 0x110000 \<and> \<not> (0xD800 \<le> n \<and> n \<le> 0xDFFF))"

definition json_key :: "pykey \<Rightarrow> bool" where
  "json_key k = (case k of KStr s \<Rightarrow> list_all valid_code_point s | _ \<Rightarrow> True)"

fun json_tree :: "pyval \<Rightarrow> bool"
  and json_items :: "(pykey \<times> pyval) list \<Rightarrow> bool"
  and json_elems :: "pyval list \<Rightarrow> bool" where
  "json_tree (VDict items) = json_items items"
| "json_tree (VList elems) = json_elems elems"
| "json_tree VNone = True"
| "json_tree (VBool b) = True"
| "json_tree (VInt i) = True"
| "json_tree (VStr s) = list_all valid_code_point s"
| "json_items [] = True"
| "json_items ((key, val) # items) = (json_key key \<and> json_tree val \<and> json_items items)"
| "json_elems [] = True"
| "json_elems (val # elems) = (json_tree val \<and> json_elems elems)"
| "json_tree (VFloat x) = valid_double x"

definition plain_key :: "pykey \<Rightarrow> bool" where
  "plain_key k = (case k of KStr s \<Rightarrow> list_all valid_code_point s | _ \<Rightarrow> False)"

fun plain_tree :: "pyval \<Rightarrow> bool"
  and plain_items :: "(pykey \<times> pyval) list \<Rightarrow> bool"
  and plain_elems :: "pyval list \<Rightarrow> bool" where
  "plain_tree (VDict items) = (distinct (map fst items) \<and> plain_items items)"
| "plain_tree (VList elems) = plain_elems elems"
| "plain_tree VNone = True"
| "plain_tree (VBool b) = True"
| "plain_tree (VInt i) = True"
| "plain_tree (VStr s) = list_all valid_code_point s"
| "plain_items [] = True"
| "plain_items ((key, val) # items) = (plain_key key \<and> plain_tree val \<and> plain_items items)"
| "plain_elems [] = True"
| "plain_elems (val # elems) = (plain_tree val \<and> plain_elems elems)"
| "plain_tree (VFloat x) = valid_double x"

text \<open>
  The depth of calls the scanners need for the text of a tree, and what \<^verbatim>\<open>JSONArray\<close>
  and \<^verbatim>\<open>JSONObject\<close> do once a value is scanned: they look for the closing bracket or
  for a comma with the next value. \<open>delim\<close> holds of the text that may follow a value in
  the output of the encoder, and \<open>value_start\<close> of the characters a value starts with.
\<close>

fun cost :: "pyval \<Rightarrow> nat"
  and cost_items :: "(pykey \<times> pyval) list \<Rightarrow> nat"
  and cost_elems :: "pyval list \<Rightarrow> nat" where
  "cost (VDict items) = Suc (cost_items items)"
| "cost (VList elems) = Suc (cost_elems elems)"
| "cost VNone = 1"
| "cost (VBool b) = 1"
| "cost (VInt i) = 1"
| "cost (VStr s) = 1"
| "cost_items [] = 0"
| "cost_items ((key, val) # items) = Suc (cost val + cost_items items)"
| "cost_elems [] = 0"
| "cost_elems (val # elems) = Suc (cost val + cost_elems elems)"
| "cost (VFloat x) = 1"

definition delim :: "string \<Rightarrow> bool" where
  "delim rest = (rest = [] \<or> hd rest = CHR '','' \<or> hd rest = CHR '']'' \<or> hd rest = CHR ''}'')"

definition value_start :: "char \<Rightarrow> bool" where
  "value_start c = (c = quote_char \<or> c = CHR ''{'' \<or> c = CHR ''['' \<or> c = CHR ''n'' \<or> c = CHR ''t''
                     \<or> c = CHR ''f'' \<or> c = CHR ''-'' \<or> is_digit c \<or> c = CHR ''N'' \<or> c = CHR ''I'')"

definition array_rest :: "nat \<Rightarrow> string \<Rightarrow> pyerror + (pyval list \<times> string)" where
  "array_rest n rest =
     (case skip_ws rest of
        [] \<Rightarrow> Inl JSONDecodeError
      | c # rest' \<Rightarrow>
          if c = CHR '']'' then Inr ([], rest')
          else if c = CHR '','' then JSONArray n (skip_ws rest')
          else Inl JSONDecodeError)"

definition object_rest :: "nat \<Rightarrow> string \<Rightarrow> pyerror + ((pykey \<times> pyval) list \<times> string)" where
  "object_rest n rest =
     (case skip_ws rest of
        [] \<Rightarrow> Inl JSONDecodeError
      | c # rest' \<Rightarrow>
          if c = CHR ''}'' then Inr ([], rest')
          else if c = CHR '','' then
            (case skip_ws rest' of
               [] \<Rightarrow> Inl JSONDecodeError
             | q # rest'' \<Rightarrow> if q \<noteq> quote_char then Inl JSONDecodeError else JSONObject n rest'')
          else Inl JSONDecodeError)"

section \<open>Properties\<close>

subsection \<open>Key conversion\<close>

lemma py_key_eq_KStr [simp]: "py_key_eq k (KStr s) \<longleftrightarrow> k = KStr s"
  by (cases k) (auto simp: py_key_eq_def)

lemma is_str_str_key [simp]: "is_str (snd (str_key k))"
  by (simp add: str_key_def)

lemma snd_str_key: "snd (str_key k) = KStr (py_str k)"
  by (cases k) (simp_all add: str_key_def)

lemma length_fst_str_key: "length (fst (str_key k)) = (if is_str k then 0 else 1)"
  by (simp add: str_key_def)

lemma is_str_iff: "is_str k \<longleftrightarrow> (\<exists>s. k = KStr s)"
  by (cases k) simp_all

lemma dict_setitem_fresh:
  "KStr s \<notin> fst ` set d \<Longrightarrow> dict_setitem d (KStr s) v = d @ [(KStr s, v)]"
  by (induction d) (auto simp: image_iff)

lemma dict_setitem_keys:
  "fst ` set (dict_setitem d (KStr s) v) = insert (KStr s) (fst ` set d)"
  by (induction d) (force+)

lemma dict_setitem_distinct:
  "distinct (map fst d) \<Longrightarrow> distinct (map fst (dict_setitem d (KStr s) v))"
proof (induction d)
  case Nil
  then show ?case by simp
next
  case (Cons a d)
  obtain k' v' where a: "a = (k', v')" by (cases a)
  from Cons have "k' \<notin> fst ` set d" "distinct (map fst (dict_setitem d (KStr s) v))"
    by (auto simp: a)
  then show ?case using Cons.prems
    by (auto simp: a dict_setitem_keys)
qed

lemma dict_setitem_map_of:
  "map_of (dict_setitem d (KStr s) v) = (map_of d)(KStr s \<mapsto> v)"
  by (induction d) (auto simp: fun_eq_iff)

lemma dict_setitem_all_keys_str:
  "all_keys_str_items d \<Longrightarrow> all_keys_str v \<Longrightarrow> all_keys_str_items (dict_setitem d (KStr s) v)"
  by (induction d) auto

lemma convert_all_keys_str_aux:
  "all_keys_str (snd (convert_key_to_str t))"
  "all_keys_str_items acc \<Longrightarrow> all_keys_str_items (snd (convert_items items acc))"
  "all_keys_str_elems (snd (convert_elems elems))"
proof (induction t and items acc and elems rule: convert_key_to_str_convert_items_convert_elems.induct)
  case (8 key val items acc)
  obtain wk key' where k: "str_key key = (wk, key')" by (cases "str_key key")
  obtain wv val' where v: "convert_key_to_str val = (wv, val')" by (cases "convert_key_to_str val")
  have key': "key' = KStr (py_str key)" using snd_str_key[of key] k by simp
  have "all_keys_str val'" using "8.IH"(1)[OF k[symmetric] refl] v by simp
  then have "all_keys_str_items (dict_setitem acc key' val')"
    using "8.prems" by (simp add: key' dict_setitem_all_keys_str)
  then show ?case
    using "8.IH"(2)[OF k[symmetric] refl v[symmetric] refl] by (auto simp: k v split: prod.splits)
qed (auto split: prod.splits)

lemma set_items_Nil [simp]: "set_items d [] = d"
  by (simp add: set_items_def)

lemma set_items_Cons [simp]: "set_items d (kv # kvs) = set_items (dict_setitem d (fst kv) (snd kv)) kvs"
  by (simp add: set_items_def)

lemma convert_items_set_items:
  "snd (convert_items items acc) = set_items acc (map str_item items)"
proof (induction items arbitrary: acc)
  case Nil
  then show ?case by simp
next
  case (Cons a items)
  obtain key val where a: "a = (key, val)" by (cases a)
  obtain wk key' where k: "str_key key = (wk, key')" by (cases "str_key key")
  have key': "key' = KStr (py_str key)" using snd_str_key[of key] k by simp
  obtain wv val' where v: "convert_key_to_str val = (wv, val')" by (cases "convert_key_to_str val")
  show ?case
    using Cons.IH[of "dict_setitem acc key' val'"]
    by (auto simp: a k v key' str_item_def split: prod.splits)
qed

lemma set_items_map_of:
  "\<forall>kv \<in> set kvs. is_str (fst kv) \<Longrightarrow> map_of (set_items d kvs) = map_of d ++ map_of (rev kvs)"
proof (induction kvs arbitrary: d)
  case Nil
  then show ?case by simp
next
  case (Cons kv kvs)
  obtain s v where kv: "kv = (KStr s, v)" using Cons.prems by (cases kv) (auto simp: is_str_iff)
  have "map_of (set_items (dict_setitem d (KStr s) v) kvs) = (map_of d)(KStr s \<mapsto> v) ++ map_of (rev kvs)"
    using Cons by (simp add: dict_setitem_map_of)
  then show ?case by (simp add: kv map_add_def fun_eq_iff split: option.splits)
qed

lemma set_items_distinct:
  "\<forall>kv \<in> set kvs. is_str (fst kv) \<Longrightarrow> distinct (map fst d) \<Longrightarrow> distinct (map fst (set_items d kvs))"
proof (induction kvs arbitrary: d)
  case Nil
  then show ?case by simp
next
  case (Cons kv kvs)
  obtain s v where kv: "kv = (KStr s, v)" using Cons.prems by (cases kv) (auto simp: is_str_iff)
  show ?case using Cons by (simp add: kv dict_setitem_distinct)
qed

lemma set_items_keys:
  "\<forall>kv \<in> set kvs. is_str (fst kv) \<Longrightarrow> fst ` set (set_items d kvs) = fst ` set d \<union> fst ` set kvs"
proof (induction kvs arbitrary: d)
  case Nil
  then show ?case by simp
next
  case (Cons kv kvs)
  obtain s v where kv: "kv = (KStr s, v)" using Cons.prems by (cases kv) (auto simp: is_str_iff)
  show ?case using Cons by (simp add: kv dict_setitem_keys)
qed

lemma set_items_fresh:
  "\<forall>kv \<in> set kvs. is_str (fst kv) \<Longrightarrow> distinct (map fst kvs) \<Longrightarrow>
     fst ` set d \<inter> fst ` set kvs = {} \<Longrightarrow> set_items d kvs = d @ kvs"
proof (induction kvs arbitrary: d)
  case Nil
  then show ?case by simp
next
  case (Cons kv kvs)
  obtain s v where kv: "kv = (KStr s, v)" using Cons.prems by (cases kv) (auto simp: is_str_iff)
  have fresh: "KStr s \<notin> fst ` set d" using Cons.prems(3) by (auto simp: kv)
  have "fst ` set (d @ [(KStr s, v)]) \<inter> fst ` set kvs = {}"
    using Cons.prems(2,3) by (auto simp: kv)
  then have "set_items (d @ [(KStr s, v)]) kvs = (d @ [(KStr s, v)]) @ kvs"
    using Cons.IH[of "d @ [(KStr s, v)]"] Cons.prems by simp
  then show ?case by (simp add: kv dict_setitem_fresh[OF fresh])
qed

lemma is_str_str_item [simp]: "is_str (fst (str_item kv))"
  by (simp add: str_item_def)

lemma map_fst_str_item: "map fst (map str_item items) = map KStr (map (py_str \<circ> fst) items)"
  by (simp add: str_item_def)

lemma length_set_items:
  assumes "\<forall>kv \<in> set kvs. is_str (fst kv)"
  shows "length (set_items [] kvs) = card (fst ` set kvs)"
proof -
  have "distinct (map fst (set_items [] kvs))" using assms by (simp add: set_items_distinct)
  then have "length (map fst (set_items [] kvs)) = card (set (map fst (set_items [] kvs)))"
    by (simp only: distinct_card)
  then show ?thesis using set_items_keys[OF assms, of "[]"] by simp
qed

lemma convert_keys_as_str_aux:
  "collision_free t \<Longrightarrow> snd (convert_key_to_str t) = keys_as_str t"
  "collision_free_items items \<Longrightarrow> map str_item items = keys_as_str_items items"
  "collision_free_elems elems \<Longrightarrow> snd (convert_elems elems) = keys_as_str_elems elems"
proof (induction t and items and elems rule: keys_as_str_keys_as_str_items_keys_as_str_elems.induct)
  case (1 items)
  have "distinct (map KStr (map (py_str \<circ> fst) items))"
    using 1(2) by (simp add: distinct_map inj_on_def)
  then have d: "distinct (map fst (map str_item items))"
    by (simp only: map_fst_str_item)
  have "set_items [] (map str_item items) = [] @ map str_item items"
    by (rule set_items_fresh) (use d in auto)
  then show ?case using 1 convert_items_set_items[of items "[]"] by (auto split: prod.splits)
next
  case (8 key val items)
  then show ?case by (simp add: str_item_def)
qed (auto split: prod.splits)

lemma count_warnings_aux:
  "length (fst (convert_key_to_str t)) = count_nonstr_keys t"
  "length (fst (convert_items items acc)) = count_nonstr_keys_items items"
  "length (fst (convert_elems elems)) = count_nonstr_keys_elems elems"
proof (induction t and items acc and elems rule: convert_key_to_str_convert_items_convert_elems.induct)
  case (8 key val items acc)
  obtain wk key' where k: "str_key key = (wk, key')" by (cases "str_key key")
  obtain wv val' where v: "convert_key_to_str val = (wv, val')" by (cases "convert_key_to_str val")
  have lk: "length wk = (if is_str key then 0 else 1)" using length_fst_str_key[of key] k by simp
  have lv: "length wv = count_nonstr_keys val" using "8.IH"(1)[OF k[symmetric] refl] v by simp
  show ?case
    using "8.IH"(2)[OF k[symmetric] refl v[symmetric] refl] lk lv
    by (auto simp: k v split: prod.splits)
qed (auto split: prod.splits)

lemma keys_as_str_id_aux:
  "all_keys_str t \<Longrightarrow> keys_as_str t = t"
  "all_keys_str_items items \<Longrightarrow> keys_as_str_items items = items"
  "all_keys_str_elems elems \<Longrightarrow> keys_as_str_elems elems = elems"
  by (induction t and items and elems rule: keys_as_str_keys_as_str_items_keys_as_str_elems.induct)
     (auto simp: is_str_iff)

lemma int_str_1: "int_str 1 = ''1''"
  by code_simp

text \<open>
  Claim C7, as stated: for every tree of dicts, lists and scalars,
  \<^verbatim>\<open>_convert_key_to_str\<close> returns an equal tree in which every mapping key is a
  string, non-string keys being replaced by \<^verbatim>\<open>str(key)\<close> and everything else left
  unchanged. It fails on a dict with the keys \<^verbatim>\<open>1\<close> and \<^verbatim>\<open>"1"\<close>: the tree with the
  keys replaced has two items, the result has one, and the value \<^verbatim>\<open>"a"\<close> is gone.
\<close>

theorem convert_key_to_str_collision:
  "snd (convert_key_to_str (VDict [(KInt 1, VStr (ascii ''a'')), (KStr (ascii ''1''), VStr (ascii ''b''))]))
     = VDict [(KStr (ascii ''1''), VStr (ascii ''b''))]
   \<and> keys_as_str (VDict [(KInt 1, VStr (ascii ''a'')), (KStr (ascii ''1''), VStr (ascii ''b''))])
     = VDict [(KStr (ascii ''1''), VStr (ascii ''a'')), (KStr (ascii ''1''), VStr (ascii ''b''))]"
  by (simp add: str_key_def int_str_1)

text \<open>
  Claim C7, amended: for every tree of dicts, lists and scalars, every mapping key of the
  result of \<^verbatim>\<open>_convert_key_to_str\<close>, at every depth, is a string, and one deprecation
  warning is issued for each non-string key; the conversion has no error result. When no
  mapping of the tree has two keys with the same string form, the result is the tree
  with every key replaced by its string form and everything else unchanged; on a tree
  whose keys are all strings that is the tree itself.
\<close>

theorem convert_key_to_str_keys:
  "all_keys_str (snd (convert_key_to_str t))
   \<and> length (fst (convert_key_to_str t)) = count_nonstr_keys t
   \<and> (collision_free t \<longrightarrow> snd (convert_key_to_str t) = keys_as_str t)
   \<and> (all_keys_str t \<longrightarrow> keys_as_str t = t)"
  by (simp add: convert_all_keys_str_aux(1) count_warnings_aux(1) convert_keys_as_str_aux(1)
        keys_as_str_id_aux(1))

theorem convert_key_to_str_keys_witness:
  "collision_free (VDict [(KInt 1, VList [VDict [(KNone, VNone)]]), (KStr (ascii ''b''), VInt 2)])
   \<and> snd (convert_key_to_str (VDict [(KInt 1, VList [VDict [(KNone, VNone)]]), (KStr (ascii ''b''), VInt 2)]))
       = VDict [(KStr (ascii ''1''), VList [VDict [(KStr (ascii ''None''), VNone)]]), (KStr (ascii ''b''), VInt 2)]
   \<and> length (fst (convert_key_to_str (VDict [(KInt 1, VList [VDict [(KNone, VNone)]]), (KStr (ascii ''b''), VInt 2)]))) = 2
   \<and> all_keys_str (VDict [(KStr (ascii ''b''), VInt 2)])
   \<and> keys_as_str (VDict [(KStr (ascii ''b''), VInt 2)]) = VDict [(KStr (ascii ''b''), VInt 2)]"
proof -
  have c: "collision_free (VDict [(KInt 1, VList [VDict [(KNone, VNone)]]), (KStr (ascii ''b''), VInt 2)])"
    by (simp add: int_str_1 ascii_def)
  have a: "all_keys_str (VDict [(KStr (ascii ''b''), VInt 2)])"
    by simp
  show ?thesis
    using convert_key_to_str_keys[of "VDict [(KInt 1, VList [VDict [(KNone, VNone)]]), (KStr (ascii ''b''), VInt 2)]"]
      convert_key_to_str_keys[of "VDict [(KStr (ascii ''b''), VInt 2)]"] c a
    by (simp add: int_str_1)
qed

lemma collision_shorter:
  assumes "\<not> distinct (map (py_str \<circ> fst) items)"
  shows "length (set_items [] (map str_item items)) < length items"
proof -
  have "length (set_items [] (map str_item items)) = card (fst ` set (map str_item items))"
    by (rule length_set_items) simp
  also have "fst ` set (map str_item items) = KStr ` set (map (py_str \<circ> fst) items)"
    by (force simp: str_item_def image_iff)
  also have "card (KStr ` set (map (py_str \<circ> fst) items)) = card (set (map (py_str \<circ> fst) items))"
    by (rule card_image) (simp add: inj_on_def)
  also have "\<dots> < length (map (py_str \<circ> fst) items)"
    using assms card_distinct[of "map (py_str \<circ> fst) items"] card_length[of "map (py_str \<circ> fst) items"]
    by (cases "card (set (map (py_str \<circ> fst) items)) = length (map (py_str \<circ> fst) items)") auto
  finally show ?thesis by simp
qed

lemma collision_last_wins:
  "map_of (set_items [] (map str_item items)) = map_of (rev (map str_item items))"
  using set_items_map_of[of "map str_item items" "[]"] by simp

lemma convert_dict: "snd (convert_key_to_str (VDict items)) = VDict (set_items [] (map str_item items))"
  using convert_items_set_items[of items "[]"] by (auto split: prod.splits)

text \<open>
  Claim C10: key coercion is not injective. Whenever two keys of a mapping have the same
  string form (as the integer \<^verbatim>\<open>1\<close> and the string \<^verbatim>\<open>"1"\<close> have),
  \<^verbatim>\<open>_convert_key_to_str\<close> returns a mapping with strictly fewer items than its input;
  under each string form it holds the converted value of the last item of the input with
  that form; and the warnings are the deprecation warnings of the non-string keys,
  with none about the collision.
\<close>

theorem key_coercion_not_injective:
  assumes "\<not> distinct (map (py_str \<circ> fst) items)"
  shows "\<exists>d. snd (convert_key_to_str (VDict items)) = VDict d
            \<and> length d < length items
            \<and> map_of d = map_of (rev (map str_item items))
            \<and> length (fst (convert_key_to_str (VDict items))) = count_nonstr_keys (VDict items)"
  using assms collision_shorter collision_last_wins convert_dict count_warnings_aux(1) by blast

theorem key_coercion_not_injective_witness:
  "\<not> distinct (map (py_str \<circ> fst) [(KStr (ascii ''1''), VStr (ascii ''a'')), (KInt 1, VStr (ascii ''b''))])
   \<and> (\<exists>d. snd (convert_key_to_str (VDict [(KStr (ascii ''1''), VStr (ascii ''a'')), (KInt 1, VStr (ascii ''b''))])) = VDict d
          \<and> length d < 2
          \<and> map_of d (KStr (ascii ''1'')) = Some (VStr (ascii ''b'')))
   \<and> fst (convert_key_to_str (VDict [(KStr (ascii ''1''), VStr (ascii ''a'')), (KInt 1, VStr (ascii ''b''))]))
       = [DeprecationWarning ''Use of int as key is deprecated and will be removed in version 2.0'']"
proof -
  have n: "\<not> distinct (map (py_str \<circ> fst) [(KStr (ascii ''1''), VStr (ascii ''a'')), (KInt 1, VStr (ascii ''b''))])"
    by (simp add: int_str_1)
  have w: "fst (convert_key_to_str (VDict [(KStr (ascii ''1''), VStr (ascii ''a'')), (KInt 1, VStr (ascii ''b''))]))
       = [DeprecationWarning ''Use of int as key is deprecated and will be removed in version 2.0'']"
    by (simp add: str_key_def)
  from key_coercion_not_injective[OF n] obtain d where
    d: "snd (convert_key_to_str (VDict [(KStr (ascii ''1''), VStr (ascii ''a'')), (KInt 1, VStr (ascii ''b''))])) = VDict d"
       "length d < length [(KStr (ascii ''1''), VStr (ascii ''a'')), (KInt 1, VStr (ascii ''b''))]"
       "map_of d = map_of (rev (map str_item [(KStr (ascii ''1''), VStr (ascii ''a'')), (KInt 1, VStr (ascii ''b''))]))"
    by blast
  have "map_of d (KStr (ascii ''1'')) = Some (VStr (ascii ''b''))"
    by (simp add: d(3) str_item_def int_str_1)
  with d(1,2) n w show ?thesis by auto
qed

subsection \<open>Loading\<close>

lemma json_loads_null: "json_loads (Bytes ''null'') = Inr VNone"
  by code_simp

text \<open>
  Claim C1 says that every I/O error other than file-not-found raised while reading the
  backing file propagates unchanged from \<^verbatim>\<open>_load_from_file\<close>. The code catches it and
  returns \<^verbatim>\<open>None\<close>: on a file whose \<^verbatim>\<open>open\<close> fails with \<^verbatim>\<open>EACCES\<close> (13),
  \<^verbatim>\<open>_load_from_file\<close> returns \<^verbatim>\<open>None\<close>, and \<^verbatim>\<open>_load\<close> then raises the
  \<^verbatim>\<open>TypeError\<close> of \<^verbatim>\<open>json.loads(None)\<close> instead of the \<^verbatim>\<open>IOError\<close>.
\<close>

theorem load_from_file_swallows_error:
  "fst (JSONCollection_load_from_file (JSONCollection_init id (Some ''/d/doc.json'') False)
          (world0 [''/d/doc.json'' \<mapsto> Failing 13])) = Inr PyNone
   \<and> fst (JSONCollection_load (JSONCollection_init id (Some ''/d/doc.json'') False)
          (world0 [''/d/doc.json'' \<mapsto> Failing 13])) = Inl TypeError"
  by (simp add: JSONCollection_load_from_file_def JSONCollection_load_def JSONCollection_init_def
        world0_def open_rb_def ENOENT_def in_buffered_mode_def json_loads_def)

lemma load_from_file_missing:
  assumes "filename self = Some p" "disk w p = None"
  shows "JSONCollection_load_from_file self w = (Inr (Bytes ''null''), w\<lparr>io_log := io_log w @ [OpenRead p]\<rparr>)"
  using assms by (simp add: JSONCollection_load_from_file_def open_rb_def)

text \<open>
  Claim C4: loading a document whose backing file does not exist does not raise.
  \<^verbatim>\<open>_load_from_file\<close> returns the byte encoding of JSON \<^verbatim>\<open>null\<close> on the
  file-not-found error, and \<^verbatim>\<open>_load\<close>, which reads the file when the buffered mode is
  off or the buffer has no entry for the file, then returns the null document.
\<close>

theorem load_missing_file:
  assumes "filename self = Some p" and "disk w p = None"
  shows "fst (JSONCollection_load_from_file self w) = Inr (Bytes ''null'')
         \<and> (cache w (Some p) = None \<or> \<not> (in_buffered_mode w \<or> buffered self \<noteq> 0)
              \<longrightarrow> fst (JSONCollection_load self w) = Inr VNone)"
  using assms load_from_file_missing[OF assms]
  by (auto simp: JSONCollection_load_def json_loads_null split: option.splits)

theorem load_missing_file_witness:
  "filename (JSONCollection_init id (Some ''/d/doc.json'') False) = Some ''/d/doc.json''
   \<and> disk (world0 Map.empty) ''/d/doc.json'' = None
   \<and> cache (world0 Map.empty) (Some ''/d/doc.json'') = None
   \<and> fst (JSONCollection_load_from_file (JSONCollection_init id (Some ''/d/doc.json'') False) (world0 Map.empty))
       = Inr (Bytes ''null'')
   \<and> fst (JSONCollection_load (JSONCollection_init id (Some ''/d/doc.json'') False) (world0 Map.empty)) = Inr VNone"
proof -
  have f: "filename (JSONCollection_init id (Some ''/d/doc.json'') False) = Some ''/d/doc.json''"
    by (simp add: JSONCollection_init_def)
  have d: "disk (world0 Map.empty) ''/d/doc.json'' = None"
    by (simp add: world0_def)
  have c: "cache (world0 Map.empty) (Some ''/d/doc.json'') = None"
    by (simp add: world0_def)
  show ?thesis using load_missing_file[OF f d] f d c by simp
qed

subsection \<open>Syncing\<close>

lemma sync_buffered:
  assumes "in_buffered_mode w \<or> buffered self > 0"
  shows "JSONCollection_sync token self w =
           (Inr (), store_to_buffer (filename self) (Bytes (sync_blob self)) False (sync_warned self w))"
  using assms
  by (auto simp: JSONCollection_sync_def sync_blob_def sync_warned_def in_buffered_mode_def Let_def
           split: prod.splits)

lemma sync_unbuffered:
  assumes "\<not> (in_buffered_mode w \<or> buffered self > 0)"
  shows "JSONCollection_sync token self w =
           JSONCollection_write_to_file token (filename self) (sync_blob self) (write_concern self)
             (sync_warned self w)"
  using assms
  by (auto simp: JSONCollection_sync_def sync_blob_def sync_warned_def in_buffered_mode_def Let_def
           split: prod.splits)

lemma open_wb_cases:
  "open_wb p w = (r, w') \<Longrightarrow>
     cache w' = cache w \<and> cache_hashes w' = cache_hashes w \<and> io_log w' = io_log w @ [OpenWrite p]
     \<and> (case r of Inl e \<Rightarrow> disk w' = disk w | Inr u \<Rightarrow> disk w' = (disk w)(p \<mapsto> Regular []))"
  by (auto simp: open_wb_def Let_def split: option.splits fsnode.splits)

lemma os_replace_cache:
  "os_replace src dst w = (r, w') \<Longrightarrow>
     cache w' = cache w \<and> cache_hashes w' = cache_hashes w \<and> io_log w' = io_log w @ [Replace src dst]"
  by (auto simp: os_replace_def Let_def split: option.splits fsnode.splits if_splits)

lemma os_replace_ok:
  "os_replace src dst w = (Inr u, w') \<Longrightarrow>
     disk w' dst = disk w src \<and> disk w src \<noteq> None \<and> (src \<noteq> dst \<longrightarrow> disk w' src = None)"
  by (auto simp: os_replace_def Let_def split: option.splits fsnode.splits if_splits)

lemma write_to_file_cache:
  assumes "JSONCollection_write_to_file token fname b wc w = (r, w')"
  shows "cache w' = cache w \<and> cache_hashes w' = cache_hashes w"
proof (cases fname)
  case None
  then show ?thesis using assms by (simp add: JSONCollection_write_to_file_def)
next
  case (Some p)
  show ?thesis
  proof (cases wc)
    case True
    obtain r1 w1 where o: "open_wb (tmp_name token p) w = (r1, w1)" by (cases "open_wb (tmp_name token p) w")
    note c1 = open_wb_cases[OF o]
    show ?thesis
    proof (cases r1)
      case (Inl e)
      then show ?thesis using assms Some True o c1 by (simp add: JSONCollection_write_to_file_def)
    next
      case (Inr u)
      then have "os_replace (tmp_name token p) p (file_write (tmp_name token p) b w1) = (r, w')"
        using assms Some True o by (simp add: JSONCollection_write_to_file_def Let_def)
      from os_replace_cache[OF this] show ?thesis using c1 by (simp add: file_write_def)
    qed
  next
    case False
    obtain r1 w1 where o: "open_wb p w = (r1, w1)" by (cases "open_wb p w")
    note c1 = open_wb_cases[OF o]
    show ?thesis using assms Some False o c1
      by (cases r1) (auto simp: JSONCollection_write_to_file_def file_write_def)
  qed
qed

lemma write_to_file_ok:
  assumes "JSONCollection_write_to_file token fname b wc w = (Inr u, w')"
  shows "\<exists>p. fname = Some p \<and> disk w' p = Some (Regular b)"
proof (cases fname)
  case None
  then show ?thesis using assms by (simp add: JSONCollection_write_to_file_def)
next
  case (Some p)
  show ?thesis
  proof (cases wc)
    case True
    obtain r1 w1 where o: "open_wb (tmp_name token p) w = (r1, w1)" by (cases "open_wb (tmp_name token p) w")
    show ?thesis
    proof (cases r1)
      case (Inl e)
      then show ?thesis using assms Some True o by (simp add: JSONCollection_write_to_file_def)
    next
      case (Inr u')
      then have "os_replace (tmp_name token p) p (file_write (tmp_name token p) b w1) = (Inr u, w')"
        using assms Some True o by (simp add: JSONCollection_write_to_file_def Let_def)
      from os_replace_ok[OF this] show ?thesis using Some by (simp add: file_write_def)
    qed
  next
    case False
    obtain r1 w1 where o: "open_wb p w = (r1, w1)" by (cases "open_wb p w")
    show ?thesis using assms Some False o
      by (cases r1) (auto simp: JSONCollection_write_to_file_def file_write_def)
  qed
qed

text \<open>
  Claim C5: for every call to \<^verbatim>\<open>_sync\<close>, if the global buffered-mode predicate is true
  or the buffering flag of the instance is set, the call succeeds, the serialized bytes
  are the buffer entry of the instance's filename afterwards, and the disk and the log of
  disk accesses are as before; otherwise the call is the write of these bytes to the
  file, the buffer is as before, and when the write succeeds the file holds the bytes.
\<close>

theorem sync_routing:
  "(in_buffered_mode w \<or> buffered self > 0 \<longrightarrow>
      fst (JSONCollection_sync token self w) = Inr ()
      \<and> cache (snd (JSONCollection_sync token self w)) (filename self) = Some (Bytes (sync_blob self))
      \<and> disk (snd (JSONCollection_sync token self w)) = disk w
      \<and> io_log (snd (JSONCollection_sync token self w)) = io_log w)
   \<and> (\<not> (in_buffered_mode w \<or> buffered self > 0) \<longrightarrow>
      JSONCollection_sync token self w =
        JSONCollection_write_to_file token (filename self) (sync_blob self) (write_concern self)
          (sync_warned self w)
      \<and> cache (snd (JSONCollection_sync token self w)) = cache w
      \<and> (fst (JSONCollection_sync token self w) = Inr () \<longrightarrow>
           (\<exists>p. filename self = Some p
              \<and> disk (snd (JSONCollection_sync token self w)) p = Some (Regular (sync_blob self)))))"
proof (intro conjI impI)
  assume b: "\<not> (in_buffered_mode w \<or> buffered self > 0)"
  let ?r = "JSONCollection_write_to_file token (filename self) (sync_blob self) (write_concern self)
          (sync_warned self w)"
  show eq: "JSONCollection_sync token self w = ?r" by (rule sync_unbuffered[OF b])
  show "cache (snd (JSONCollection_sync token self w)) = cache w"
    using write_to_file_cache[of token "filename self" "sync_blob self" "write_concern self"
        "sync_warned self w" "fst ?r" "snd ?r"]
    by (simp add: eq sync_warned_def)
  assume ok: "fst (JSONCollection_sync token self w) = Inr ()"
  show "\<exists>p. filename self = Some p
              \<and> disk (snd (JSONCollection_sync token self w)) p = Some (Regular (sync_blob self))"
    using write_to_file_ok[of token "filename self" "sync_blob self" "write_concern self"
        "sync_warned self w" "()" "snd ?r"] ok
    by (simp add: eq prod_eq_iff)
qed (simp_all add: sync_buffered store_to_buffer_def sync_warned_def)

lemma tmp_name_example: "tmp_name ''t'' ''/d/doc.json'' = ''/d/._t_doc.json''"
  by code_simp

lemma sync_blob_init: "sync_blob (JSONCollection_init rp f wc) = ''null''"
  by (simp add: sync_blob_def JSONCollection_init_def to_base_def)

lemma sync_unbuffered_example:
  "fst (JSONCollection_sync ''t'' (JSONCollection_init id (Some ''/d/doc.json'') True) (world0 Map.empty)) = Inr ()"
  by (simp add: JSONCollection_sync_def JSONCollection_init_def to_base_def world0_def in_buffered_mode_def
        JSONCollection_write_to_file_def tmp_name_example open_wb_def file_write_def os_replace_def Let_def)

theorem sync_routing_witness:
  "\<not> (in_buffered_mode (world0 Map.empty) \<or> buffered (JSONCollection_init id (Some ''/d/doc.json'') True) > 0)
   \<and> fst (JSONCollection_sync ''t'' (JSONCollection_init id (Some ''/d/doc.json'') True) (world0 Map.empty)) = Inr ()
   \<and> disk (snd (JSONCollection_sync ''t'' (JSONCollection_init id (Some ''/d/doc.json'') True) (world0 Map.empty)))
        ''/d/doc.json'' = Some (Regular ''null'')
   \<and> cache (snd (JSONCollection_sync ''t'' (JSONCollection_init id (Some ''/d/doc.json'') True) (world0 Map.empty)))
        = Map.empty
   \<and> in_buffered_mode ((world0 Map.empty)\<lparr>buffered_mode := 1\<rparr>)
   \<and> cache (snd (JSONCollection_sync ''t'' (JSONCollection_init id (Some ''/d/doc.json'') True)
                 ((world0 Map.empty)\<lparr>buffered_mode := 1\<rparr>))) (Some ''/d/doc.json'') = Some (Bytes ''null'')
   \<and> disk (snd (JSONCollection_sync ''t'' (JSONCollection_init id (Some ''/d/doc.json'') True)
                 ((world0 Map.empty)\<lparr>buffered_mode := 1\<rparr>))) = Map.empty
   \<and> io_log (snd (JSONCollection_sync ''t'' (JSONCollection_init id (Some ''/d/doc.json'') True)
                 ((world0 Map.empty)\<lparr>buffered_mode := 1\<rparr>))) = []"
proof -
  let ?c = "JSONCollection_init id (Some ''/d/doc.json'') True"
  have u: "\<not> (in_buffered_mode (world0 Map.empty) \<or> buffered ?c > 0)"
    by (simp add: in_buffered_mode_def world0_def JSONCollection_init_def)
  have b: "in_buffered_mode ((world0 Map.empty)\<lparr>buffered_mode := 1\<rparr>)"
    by (simp add: in_buffered_mode_def)
  have f: "filename ?c = Some ''/d/doc.json''"
    by (simp add: JSONCollection_init_def)
  let ?r = "JSONCollection_sync ''t'' ?c (world0 Map.empty)"
  let ?s = "JSONCollection_sync ''t'' ?c ((world0 Map.empty)\<lparr>buffered_mode := 1\<rparr>)"
  from sync_routing[of "world0 Map.empty" ?c "''t''"] u
  have c1: "cache (snd ?r) = cache (world0 Map.empty)"
    and d1: "fst ?r = Inr () \<longrightarrow> (\<exists>p. filename ?c = Some p \<and> disk (snd ?r) p = Some (Regular (sync_blob ?c)))"
    by blast+
  from d1 sync_unbuffered_example f have d2: "disk (snd ?r) ''/d/doc.json'' = Some (Regular ''null'')"
    by (auto simp: sync_blob_init)
  from sync_routing[of "(world0 Map.empty)\<lparr>buffered_mode := 1\<rparr>" ?c "''t''"] b
  have c2: "cache (snd ?s) (filename ?c) = Some (Bytes (sync_blob ?c))"
    and d3: "disk (snd ?s) = disk ((world0 Map.empty)\<lparr>buffered_mode := 1\<rparr>)"
    and l3: "io_log (snd ?s) = io_log ((world0 Map.empty)\<lparr>buffered_mode := 1\<rparr>)"
    by blast+
  show ?thesis
    using u b sync_unbuffered_example c1 d2 c2 d3 l3
    by (simp add: f sync_blob_init world0_def)
qed

subsection \<open>Loading in buffered mode\<close>

lemma load_from_file_log:
  assumes "filename self = Some p" and "JSONCollection_load_from_file self w = (r, w')"
  shows "w' = w\<lparr>io_log := io_log w @ [OpenRead p]\<rparr> \<and> (\<exists>b. r = Inr b)"
  using assms
  by (auto simp: JSONCollection_load_from_file_def Let_def split: sum.splits if_splits)

text \<open>
  Claim C6: for every call to \<^verbatim>\<open>_load\<close> under buffered mode, if the filename has a
  buffer entry, the result is deserialized from the buffered bytes and the world is as
  before (no disk read); otherwise the file is read from disk exactly once, what was read
  is stored into the buffer with its fingerprint, the result is deserialized from it, and
  a load that follows returns the same result and leaves the world as it is (no disk
  access).
\<close>

theorem load_buffered:
  assumes "in_buffered_mode w \<or> buffered self \<noteq> 0" and "filename self = Some p"
  shows "(\<forall>b. cache w (Some p) = Some b \<longrightarrow> JSONCollection_load self w = (json_loads b, w))
       \<and> (cache w (Some p) = None \<longrightarrow>
            (\<exists>b. fst (JSONCollection_load_from_file self w) = Inr b
               \<and> fst (JSONCollection_load self w) = json_loads b
               \<and> io_log (snd (JSONCollection_load self w)) = io_log w @ [OpenRead p]
               \<and> disk (snd (JSONCollection_load self w)) = disk w
               \<and> cache (snd (JSONCollection_load self w)) = (cache w)(Some p \<mapsto> b)
               \<and> cache_hashes (snd (JSONCollection_load self w)) (Some p) = Some (Fingerprint b)
               \<and> JSONCollection_load self (snd (JSONCollection_load self w))
                   = (json_loads b, snd (JSONCollection_load self w))))"
proof (intro conjI allI impI)
  fix b assume "cache w (Some p) = Some b"
  then show "JSONCollection_load self w = (json_loads b, w)"
    using assms by (auto simp: JSONCollection_load_def)
next
  assume miss: "cache w (Some p) = None"
  obtain r w1 where l: "JSONCollection_load_from_file self w = (r, w1)"
    by (cases "JSONCollection_load_from_file self w")
  from load_from_file_log[OF assms(2) l] obtain b where
    w1: "w1 = w\<lparr>io_log := io_log w @ [OpenRead p]\<rparr>" and r: "r = Inr b" by blast
  let ?w2 = "store_to_buffer (Some p) b True w1"
  have res: "JSONCollection_load self w = (json_loads b, ?w2)"
    using assms miss l r by (auto simp: JSONCollection_load_def)
  have mode: "in_buffered_mode ?w2 \<or> buffered self \<noteq> 0"
    using assms(1) by (simp add: in_buffered_mode_def store_to_buffer_def w1)
  have hit: "cache ?w2 (Some p) = Some b"
    by (simp add: store_to_buffer_def)
  have again: "JSONCollection_load self ?w2 = (json_loads b, ?w2)"
    using mode hit assms(2) by (auto simp: JSONCollection_load_def)
  show "\<exists>b. fst (JSONCollection_load_from_file self w) = Inr b
               \<and> fst (JSONCollection_load self w) = json_loads b
               \<and> io_log (snd (JSONCollection_load self w)) = io_log w @ [OpenRead p]
               \<and> disk (snd (JSONCollection_load self w)) = disk w
               \<and> cache (snd (JSONCollection_load self w)) = (cache w)(Some p \<mapsto> b)
               \<and> cache_hashes (snd (JSONCollection_load self w)) (Some p) = Some (Fingerprint b)
               \<and> JSONCollection_load self (snd (JSONCollection_load self w))
                   = (json_loads b, snd (JSONCollection_load self w))"
    using res again l r by (intro exI[of _ b]) (simp add: store_to_buffer_def w1)
qed

lemma json_loads_list1: "json_loads (Bytes ''[1]'') = Inr (VList [VInt 1])"
  by code_simp

theorem load_buffered_witness:
  "in_buffered_mode ((world0 [''/d/doc.json'' \<mapsto> Regular ''[1]''])\<lparr>buffered_mode := 1\<rparr>)
   \<and> filename (JSONCollection_init id (Some ''/d/doc.json'') False) = Some ''/d/doc.json''
   \<and> cache ((world0 [''/d/doc.json'' \<mapsto> Regular ''[1]''])\<lparr>buffered_mode := 1\<rparr>) (Some ''/d/doc.json'') = None
   \<and> fst (JSONCollection_load (JSONCollection_init id (Some ''/d/doc.json'') False)
            ((world0 [''/d/doc.json'' \<mapsto> Regular ''[1]''])\<lparr>buffered_mode := 1\<rparr>)) = Inr (VList [VInt 1])
   \<and> io_log (snd (JSONCollection_load (JSONCollection_init id (Some ''/d/doc.json'') False)
            ((world0 [''/d/doc.json'' \<mapsto> Regular ''[1]''])\<lparr>buffered_mode := 1\<rparr>))) = [OpenRead ''/d/doc.json'']
   \<and> cache (snd (JSONCollection_load (JSONCollection_init id (Some ''/d/doc.json'') False)
            ((world0 [''/d/doc.json'' \<mapsto> Regular ''[1]''])\<lparr>buffered_mode := 1\<rparr>))) (Some ''/d/doc.json'')
        = Some (Bytes ''[1]'')
   \<and> cache ((world0 Map.empty)\<lparr>buffered_mode := 1, cache := [Some ''/d/doc.json'' \<mapsto> Bytes ''[1]'']\<rparr>)
        (Some ''/d/doc.json'') = Some (Bytes ''[1]'')
   \<and> JSONCollection_load (JSONCollection_init id (Some ''/d/doc.json'') False)
        ((world0 Map.empty)\<lparr>buffered_mode := 1, cache := [Some ''/d/doc.json'' \<mapsto> Bytes ''[1]'']\<rparr>)
        = (Inr (VList [VInt 1]),
           (world0 Map.empty)\<lparr>buffered_mode := 1, cache := [Some ''/d/doc.json'' \<mapsto> Bytes ''[1]'']\<rparr>)"
proof -
  let ?c = "JSONCollection_init id (Some ''/d/doc.json'') False"
  let ?w = "(world0 [''/d/doc.json'' \<mapsto> Regular ''[1]''])\<lparr>buffered_mode := 1\<rparr>"
  let ?v = "(world0 Map.empty)\<lparr>buffered_mode := 1, cache := [Some ''/d/doc.json'' \<mapsto> Bytes ''[1]'']\<rparr>"
  have m: "in_buffered_mode ?w \<or> buffered ?c \<noteq> 0" and m': "in_buffered_mode ?v \<or> buffered ?c \<noteq> 0"
    by (simp_all add: in_buffered_mode_def)
  have f: "filename ?c = Some ''/d/doc.json''"
    by (simp add: JSONCollection_init_def)
  have c: "cache ?w (Some ''/d/doc.json'') = None"
    by (simp add: world0_def)
  have c': "cache ?v (Some ''/d/doc.json'') = Some (Bytes ''[1]'')"
    by simp
  have r: "fst (JSONCollection_load_from_file ?c ?w) = Inr (Bytes ''[1]'')"
    by (simp add: JSONCollection_load_from_file_def f open_rb_def world0_def)
  show ?thesis
    using load_buffered[OF m f] load_buffered[OF m' f] c c' r m f
    by (auto simp: json_loads_list1 world0_def in_buffered_mode_def)
qed

subsection \<open>Validation\<close>

lemma run_validators_list_all:
  "run_validators vs t = (if list_all (\<lambda>v. v t) vs then Inr () else Inl FormatError)"
  by (induction vs) auto

text \<open>
  Claim C8: if a registered validator rejects the \<^verbatim>\<open>to_base()\<close> output during the sync
  that follows a mutation, the sync raises a format error, the world (the file on disk
  and the buffer) is as before, and the in-memory tree keeps the mutation.
\<close>

theorem validation_rejection:
  assumes "\<not> list_all (\<lambda>v. v (f (data self))) validators"
  shows "SyncedCollection_mutate validators token f self w
           = (Inl FormatError, self\<lparr>data := f (data self)\<rparr>, w)"
  using assms
  by (simp add: SyncedCollection_mutate_def SyncedCollection_sync_def run_validators_list_all to_base_def)

theorem validation_rejection_witness:
  "\<not> list_all (\<lambda>v. v ((\<lambda>t. VDict [(KInt 1, VNone)]) (data (JSONCollection_init id (Some ''/d/doc.json'') True))))
        [all_keys_str]
   \<and> SyncedCollection_mutate [all_keys_str] ''t'' (\<lambda>t. VDict [(KInt 1, VNone)])
        (JSONCollection_init id (Some ''/d/doc.json'') True) (world0 [''/d/doc.json'' \<mapsto> Regular ''{}''])
      = (Inl FormatError,
         (JSONCollection_init id (Some ''/d/doc.json'') True)\<lparr>data := VDict [(KInt 1, VNone)]\<rparr>,
         world0 [''/d/doc.json'' \<mapsto> Regular ''{}''])"
proof -
  have r: "\<not> list_all (\<lambda>v. v ((\<lambda>t. VDict [(KInt 1, VNone)]) (data (JSONCollection_init id (Some ''/d/doc.json'') True))))
        [all_keys_str]"
    by simp
  show ?thesis
    using validation_rejection[OF r, where token = "''t''" and w = "world0 [''/d/doc.json'' \<mapsto> Regular ''{}'']"] r
    by simp
qed

subsection \<open>The canonical filename\<close>

lemma load_cache_other:
  assumes "k \<noteq> filename self"
  shows "cache (snd (JSONCollection_load self w)) k = cache w k
         \<and> cache_hashes (snd (JSONCollection_load self w)) k = cache_hashes w k"
  using assms
  by (auto simp: JSONCollection_load_def JSONCollection_load_from_file_def store_to_buffer_def Let_def
           split: option.splits sum.splits prod.splits)

lemma sync_cache_other:
  assumes "k \<noteq> filename self"
  shows "cache (snd (JSONCollection_sync token self w)) k = cache w k
         \<and> cache_hashes (snd (JSONCollection_sync token self w)) k = cache_hashes w k"
proof (cases "in_buffered_mode w \<or> buffered self > 0")
  case True
  then show ?thesis using assms by (simp add: sync_buffered store_to_buffer_def sync_warned_def)
next
  case False
  let ?r = "JSONCollection_write_to_file token (filename self) (sync_blob self) (write_concern self)
          (sync_warned self w)"
  show ?thesis
    using write_to_file_cache[of token "filename self" "sync_blob self" "write_concern self"
        "sync_warned self w" "fst ?r" "snd ?r"]
    by (simp add: sync_unbuffered[OF False] sync_warned_def)
qed

lemma run_invariant:
  "fst (run ops (self, w)) = self
   \<and> (\<forall>k. k \<noteq> filename self \<longrightarrow>
         cache (snd (run ops (self, w))) k = cache w k
         \<and> cache_hashes (snd (run ops (self, w))) k = cache_hashes w k)"
proof (induction ops arbitrary: w)
  case Nil
  then show ?case by (simp add: run_def)
next
  case (Cons a ops)
  show ?case
  proof (cases a)
    case Load
    then have "run (a # ops) (self, w) = run ops (self, snd (JSONCollection_load self w))"
      by (simp add: run_def)
    then show ?thesis using Cons.IH[of "snd (JSONCollection_load self w)"] load_cache_other[of _ self w]
      by simp
  next
    case (Sync token)
    then have "run (a # ops) (self, w) = run ops (self, snd (JSONCollection_sync token self w))"
      by (simp add: run_def)
    then show ?thesis
      using Cons.IH[of "snd (JSONCollection_sync token self w)"] sync_cache_other[of _ self token w]
      by simp
  qed
qed

lemma sync_then_load:
  assumes "filename a = filename b" and "in_buffered_mode w"
  shows "JSONCollection_load b (snd (JSONCollection_sync token a w))
           = (json_loads (Bytes (sync_blob a)), snd (JSONCollection_sync token a w))"
proof -
  let ?w = "snd (JSONCollection_sync token a w)"
  have w': "?w = store_to_buffer (filename a) (Bytes (sync_blob a)) False (sync_warned a w)"
    using assms(2) by (simp add: sync_buffered)
  have "in_buffered_mode ?w"
    using assms(2) by (simp add: w' in_buffered_mode_def store_to_buffer_def sync_warned_def)
  moreover have "cache ?w (filename b) = Some (Bytes (sync_blob a))"
    using assms(1) by (simp add: w' store_to_buffer_def)
  ultimately show ?thesis by (simp add: JSONCollection_load_def)
qed

text \<open>
  Claim C9: the constructor stores the real path of the given filename as the filename of
  the instance, so that two instances constructed on paths with the same real path have
  the same filename; a sequence of loads and syncs leaves the filename of the instance as
  it is and changes no buffer entry under another key; and in buffered mode, what one
  instance syncs is what another instance with the same filename loads.
\<close>

theorem canonical_filename:
  "filename (JSONCollection_init realpath (Some f) wc) = Some (realpath f)
   \<and> (realpath f1 = realpath f2 \<longrightarrow>
        filename (JSONCollection_init realpath (Some f1) wc1)
          = filename (JSONCollection_init realpath (Some f2) wc2))
   \<and> filename (fst (run ops (self, w))) = filename self
   \<and> (\<forall>k. k \<noteq> filename self \<longrightarrow>
         cache (snd (run ops (self, w))) k = cache w k
         \<and> cache_hashes (snd (run ops (self, w))) k = cache_hashes w k)
   \<and> (filename a = filename b \<and> in_buffered_mode w \<longrightarrow>
        JSONCollection_load b (snd (JSONCollection_sync token a w))
          = (json_loads (Bytes (sync_blob a)), snd (JSONCollection_sync token a w)))"
  using run_invariant[of ops self w] sync_then_load[of a b w token]
  by (simp add: JSONCollection_init_def)

theorem canonical_filename_witness:
  "link_realpath ''/link/doc.json'' = link_realpath ''/d/doc.json''
   \<and> filename (JSONCollection_init link_realpath (Some ''/link/doc.json'') True) = Some ''/d/doc.json''
   \<and> filename (JSONCollection_init link_realpath (Some ''/d/doc.json'') False) = Some ''/d/doc.json''
   \<and> in_buffered_mode ((world0 Map.empty)\<lparr>buffered_mode := 1\<rparr>)
   \<and> fst (JSONCollection_load (JSONCollection_init link_realpath (Some ''/d/doc.json'') False)
        (snd (JSONCollection_sync ''t'' (JSONCollection_init link_realpath (Some ''/link/doc.json'') True)
               ((world0 Map.empty)\<lparr>buffered_mode := 1\<rparr>)))) = Inr VNone
   \<and> None \<noteq> filename (JSONCollection_init link_realpath (Some ''/link/doc.json'') True)
   \<and> cache (snd (run [Sync ''t'', Load]
        (JSONCollection_init link_realpath (Some ''/link/doc.json'') True, world0 Map.empty))) None = None"
proof -
  let ?a = "JSONCollection_init link_realpath (Some ''/link/doc.json'') True"
  let ?b = "JSONCollection_init link_realpath (Some ''/d/doc.json'') False"
  let ?w = "(world0 Map.empty)\<lparr>buffered_mode := 1\<rparr>"
  have e: "link_realpath ''/link/doc.json'' = link_realpath ''/d/doc.json''"
    by (simp add: link_realpath_def)
  have m: "in_buffered_mode ?w"
    by (simp add: in_buffered_mode_def)
  note t = canonical_filename[where realpath = link_realpath and f = "''/link/doc.json''" and wc = True
      and ?f1.0 = "''/link/doc.json''" and ?f2.0 = "''/d/doc.json''" and ?wc1.0 = True and ?wc2.0 = False
      and a = ?a and b = ?b and token = "''t''"]
  from t[where w = ?w] have fa: "filename ?a = Some (link_realpath ''/link/doc.json'')" by blast
  from t[where w = ?w] e have fab: "filename ?a = filename ?b" by blast
  from t[where w = ?w] fab m have l: "JSONCollection_load ?b (snd (JSONCollection_sync ''t'' ?a ?w))
          = (json_loads (Bytes (sync_blob ?a)), snd (JSONCollection_sync ''t'' ?a ?w))" by blast
  have n: "None \<noteq> filename ?a" using fa by simp
  from t[where w = "world0 Map.empty" and ops = "[Sync ''t'', Load]" and self = ?a] n
  have c: "cache (snd (run [Sync ''t'', Load] (?a, world0 Map.empty))) None = cache (world0 Map.empty) None"
    by blast
  show ?thesis
    using e fa fab m l n c
    by (simp add: link_realpath_def sync_blob_init json_loads_null world0_def)
qed

subsection \<open>Writing with write concern\<close>

lemma split_parts: "path_head p @ path_tail p = p"
proof -
  have "rev (takeWhile (\<lambda>c. c \<noteq> sep) (rev p) @ dropWhile (\<lambda>c. c \<noteq> sep) (rev p)) = p"
    by (simp only: takeWhile_dropWhile_id rev_rev_ident)
  then show ?thesis unfolding rev_append path_head_def path_tail_def .
qed

lemma path_head_ends_sep: "path_head p = [] \<or> last (path_head p) = sep"
proof (cases "dropWhile (\<lambda>c. c \<noteq> sep) (rev p)")
  case Nil
  then show ?thesis by (simp add: path_head_def)
next
  case (Cons a as)
  then have "\<not> (hd (dropWhile (\<lambda>c. c \<noteq> sep) (rev p)) \<noteq> sep)"
    using hd_dropWhile[of "\<lambda>c. c \<noteq> sep" "rev p"] by simp
  then show ?thesis using Cons by (simp add: path_head_def last_rev)
qed

lemma path_tail_no_sep: "sep \<notin> set (path_tail p)"
  using set_takeWhileD[of sep "\<lambda>c. c \<noteq> sep" "rev p"] by (auto simp: path_tail_def)

lemma snd_os_path_split: "snd (os_path_split p) = path_tail p"
  by (simp add: os_path_split_def Let_def)

lemma fst_os_path_split:
  "fst (os_path_split p) =
     (if path_head p \<noteq> [] \<and> path_head p \<noteq> replicate (length (path_head p)) sep
      then rstrip_sep (path_head p) else path_head p)"
  by (simp only: os_path_split_def Let_def fst_conv)

lemma rstrip_sep_last: "rstrip_sep h = [] \<or> last (rstrip_sep h) \<noteq> sep"
proof (cases "dropWhile (\<lambda>c. c = sep) (rev h)")
  case Nil
  then show ?thesis by (simp add: rstrip_sep_def)
next
  case (Cons a as)
  then have "\<not> (hd (dropWhile (\<lambda>c. c = sep) (rev h)) = sep)"
    using hd_dropWhile[of "\<lambda>c. c = sep" "rev h"] by simp
  then show ?thesis using Cons by (simp add: rstrip_sep_def last_rev)
qed

lemma rstrip_sep_id: "h \<noteq> [] \<Longrightarrow> last h \<noteq> sep \<Longrightarrow> rstrip_sep h = h"
  by (cases "rev h") (auto simp: rstrip_sep_def hd_rev)

lemma dirname_shape:
  "fst (os_path_split p) = [] \<or> last (fst (os_path_split p)) \<noteq> sep
   \<or> (fst (os_path_split p) = path_head p \<and> path_head p = replicate (length (path_head p)) sep)"
  using rstrip_sep_last[of "path_head p"] by (auto simp: fst_os_path_split)

lemma os_path_join_cases:
  assumes "n \<noteq> []" and "hd n \<noteq> sep"
  shows "os_path_join d n = (if d = [] \<or> last d = sep then d @ n else (d @ [sep]) @ n)"
  using assms by (simp add: os_path_join_def)

lemma join_dirname_neq:
  assumes "n = m @ path_tail p" and "m \<noteq> []" and "last m \<noteq> sep" and "hd n \<noteq> sep"
  shows "os_path_join (fst (os_path_split p)) n \<noteq> p"
proof
  assume eq: "os_path_join (fst (os_path_split p)) n = p"
  have "n \<noteq> []" using assms(1,2) by simp
  from os_path_join_cases[OF this assms(4)] obtain x where "os_path_join (fst (os_path_split p)) n = x @ n"
    by (cases "fst (os_path_split p) = [] \<or> last (fst (os_path_split p)) = sep") auto
  then have "(x @ m) @ path_tail p = path_head p @ path_tail p"
    using eq assms(1) by (simp add: split_parts)
  then have "path_head p = x @ m" by (simp only: append_same_eq)
  then have "path_head p \<noteq> []" and "last (path_head p) = last m"
    using assms(2) by simp_all
  then show False using path_head_ends_sep[of p] assms(3) by auto
qed

lemma path_head_append:
  assumes "sep \<notin> set n" and "x = [] \<or> last x = sep"
  shows "path_head (x @ n) = x" and "path_tail (x @ n) = n"
proof -
  have dx: "dropWhile (\<lambda>c. c \<noteq> sep) (rev x) = rev x" and tx: "takeWhile (\<lambda>c. c \<noteq> sep) (rev x) = []"
    using assms(2) by (cases "rev x"; auto simp: hd_rev dest: arg_cong[where f = hd])+
  have "dropWhile (\<lambda>c. c \<noteq> sep) (rev n @ rev x) = dropWhile (\<lambda>c. c \<noteq> sep) (rev x)"
    by (rule dropWhile_append2) (use assms(1) in auto)
  then show "path_head (x @ n) = x"
    by (simp add: path_head_def dx)
  have "takeWhile (\<lambda>c. c \<noteq> sep) (rev n @ rev x) = rev n @ takeWhile (\<lambda>c. c \<noteq> sep) (rev x)"
    by (rule takeWhile_append2) (use assms(1) in auto)
  then show "path_tail (x @ n) = n"
    by (simp add: path_tail_def tx)
qed

lemma join_dirname_split:
  assumes "sep \<notin> set n" and "n \<noteq> []"
  shows "os_path_split (os_path_join (fst (os_path_split p)) n) = (fst (os_path_split p), n)"
proof -
  let ?d = "fst (os_path_split p)"
  have hd: "hd n \<noteq> sep" using assms by (cases n) auto
  note j = os_path_join_cases[OF assms(2) hd, of ?d]
  show ?thesis
  proof (cases "?d = [] \<or> last ?d = sep")
    case True
    then have t: "os_path_join ?d n = ?d @ n" by (simp only: j if_True)
    have h: "path_head (?d @ n) = ?d" and tl: "path_tail (?d @ n) = n"
      using path_head_append[OF assms(1) True] by blast+
    have "?d = [] \<or> ?d = replicate (length ?d) sep"
      using True dirname_shape[of p] by auto
    then have "fst (os_path_split (?d @ n)) = ?d"
      by (auto simp: fst_os_path_split[of "?d @ n"] h)
    then show ?thesis
      by (simp only: t prod_eq_iff fst_conv snd_conv snd_os_path_split tl)
  next
    case False
    then have t: "os_path_join ?d n = (?d @ [sep]) @ n" by (simp only: j if_False)
    have "?d @ [sep] = [] \<or> last (?d @ [sep]) = sep" by simp
    from path_head_append[OF assms(1) this]
    have h: "path_head ((?d @ [sep]) @ n) = ?d @ [sep]" and tl: "path_tail ((?d @ [sep]) @ n) = n"
      by blast+
    have ne: "?d @ [sep] \<noteq> replicate (length (?d @ [sep])) sep"
    proof
      assume "?d @ [sep] = replicate (length (?d @ [sep])) sep"
      then have "set (?d @ [sep]) \<subseteq> {sep}" by (metis set_replicate_conv_if empty_subsetI subset_refl)
      then show False using False by (cases "?d" rule: rev_cases) auto
    qed
    have "rstrip_sep (?d @ [sep]) = rstrip_sep ?d" by (simp add: rstrip_sep_def)
    also have "\<dots> = ?d" using False by (intro rstrip_sep_id) auto
    finally have r: "rstrip_sep (?d @ [sep]) = ?d" .
    have c: "?d @ [sep] \<noteq> [] \<and> ?d @ [sep] \<noteq> replicate (length (?d @ [sep])) sep"
      using ne by blast
    have "fst (os_path_split ((?d @ [sep]) @ n)) = ?d"
      by (simp only: fst_os_path_split[of "(?d @ [sep]) @ n"] h c if_True r) simp
    then show ?thesis
      by (simp only: t prod_eq_iff fst_conv snd_conv snd_os_path_split tl)
  qed
qed

lemma tmp_name_eq:
  "tmp_name token p = os_path_join (fst (os_path_split p)) (tmp_base token (path_tail p))"
  by (simp add: tmp_name_def snd_os_path_split[symmetric] split: prod.splits)

lemma sep_chars: "sep \<noteq> CHR ''.''" "sep \<noteq> CHR ''_''"
  by (simp_all add: sep_def)

lemma tmp_name_neq: "tmp_name token p \<noteq> p"
proof -
  have "tmp_base token (path_tail p) = (''._'' @ token @ ''_'') @ path_tail p"
    by (simp add: tmp_base_def)
  moreover have "''._'' @ token @ ''_'' \<noteq> []" by simp
  moreover have "last (''._'' @ token @ ''_'') \<noteq> sep" using sep_chars by simp
  moreover have "hd (tmp_base token (path_tail p)) \<noteq> sep" using sep_chars by (simp add: tmp_base_def)
  ultimately show ?thesis unfolding tmp_name_eq by (rule join_dirname_neq)
qed

lemma tmp_name_split:
  assumes "sep \<notin> set token"
  shows "os_path_split (tmp_name token p)
           = (fst (os_path_split p), tmp_base token (snd (os_path_split p)))"
proof -
  have "sep \<notin> set (tmp_base token (path_tail p))"
    using assms path_tail_no_sep[of p] sep_chars by (auto simp: tmp_base_def)
  moreover have "tmp_base token (path_tail p) \<noteq> []" by (simp add: tmp_base_def)
  ultimately show ?thesis unfolding tmp_name_eq snd_os_path_split by (rule join_dirname_split)
qed

lemma writing_at_other:
  assumes "d' \<in> set (writing q b d)" and "q \<noteq> p"
  shows "d' p = d p"
  using assms by (auto simp: writing_def)

lemma os_replace_disk_at:
  assumes "src \<noteq> dst" and "disk w src = Some (Regular b)"
  shows "disk (snd (os_replace src dst w)) dst = disk w dst
         \<or> disk (snd (os_replace src dst w)) dst = Some (Regular b)"
  using assms by (auto simp: os_replace_def Let_def split: option.splits fsnode.splits)

lemma write_concern_trace:
  assumes "d \<in> set (write_to_file_trace token p b True w)"
  shows "d p = disk w p \<or> d p = Some (Regular b)"
proof -
  let ?t = "tmp_name token p"
  have ne: "?t \<noteq> p" by (rule tmp_name_neq)
  obtain r1 w1 where o: "open_wb ?t w = (r1, w1)" by (cases "open_wb ?t w")
  note c1 = open_wb_cases[OF o]
  show ?thesis
  proof (cases r1)
    case (Inl e)
    then show ?thesis using assms o by (simp add: write_to_file_trace_def Let_def)
  next
    case (Inr u)
    then have d1: "disk w1 = (disk w)(?t \<mapsto> Regular [])" using c1 by simp
    let ?w2 = "file_write ?t b w1"
    have tr: "write_to_file_trace token p b True w
                = disk w # writing ?t b (disk w1) @ [disk (snd (os_replace ?t p ?w2))]"
      using o Inr by (simp add: write_to_file_trace_def Let_def)
    have d2: "disk ?w2 ?t = Some (Regular b)" and d2p: "disk ?w2 p = disk w p"
      using ne by (simp_all add: file_write_def d1)
    from assms tr consider "d = disk w" | "d \<in> set (writing ?t b (disk w1))"
      | "d = disk (snd (os_replace ?t p ?w2))"
      by auto
    then show ?thesis
    proof cases
      case 1
      then show ?thesis by simp
    next
      case 2
      from writing_at_other[OF this ne] show ?thesis using ne by (simp add: d1)
    next
      case 3
      then show ?thesis using os_replace_disk_at[OF ne d2] d2p by auto
    qed
  qed
qed

lemma write_concern_result:
  "(io_log (snd (JSONCollection_write_to_file token (Some p) b True w))
        = io_log w @ [OpenWrite (tmp_name token p)]
      \<or> io_log (snd (JSONCollection_write_to_file token (Some p) b True w))
        = io_log w @ [OpenWrite (tmp_name token p), Replace (tmp_name token p) p])
   \<and> last (write_to_file_trace token p b True w)
        = disk (snd (JSONCollection_write_to_file token (Some p) b True w))
   \<and> (fst (JSONCollection_write_to_file token (Some p) b True w) = Inr () \<longrightarrow>
        disk (snd (JSONCollection_write_to_file token (Some p) b True w)) p = Some (Regular b)
        \<and> disk (snd (JSONCollection_write_to_file token (Some p) b True w)) (tmp_name token p) = None)"
proof -
  let ?t = "tmp_name token p"
  have ne: "?t \<noteq> p" by (rule tmp_name_neq)
  obtain r1 w1 where o: "open_wb ?t w = (r1, w1)" by (cases "open_wb ?t w")
  note c1 = open_wb_cases[OF o]
  show ?thesis
  proof (cases r1)
    case (Inl e)
    then show ?thesis using o c1
      by (simp add: JSONCollection_write_to_file_def write_to_file_trace_def Let_def)
  next
    case (Inr u)
    let ?w2 = "file_write ?t b w1"
    obtain r3 w3 where rp: "os_replace ?t p ?w2 = (r3, w3)" by (cases "os_replace ?t p ?w2")
    have res: "JSONCollection_write_to_file token (Some p) b True w = (r3, w3)"
      using o Inr rp by (simp add: JSONCollection_write_to_file_def Let_def)
    have tr: "last (write_to_file_trace token p b True w) = disk w3"
      using o Inr rp by (simp add: write_to_file_trace_def Let_def)
    have lg: "io_log w3 = io_log w @ [OpenWrite ?t, Replace ?t p]"
      using os_replace_cache[OF rp] c1 by (simp add: file_write_def)
    have ok: "r3 = Inr () \<longrightarrow> disk w3 p = Some (Regular b) \<and> disk w3 ?t = None"
      using os_replace_ok[of ?t p ?w2 "()" w3] rp ne by (auto simp: file_write_def)
    show ?thesis using tr lg ok by (simp add: res)
  qed
qed

text \<open>
  Claim C3: with \<^verbatim>\<open>write_concern\<close>, \<^verbatim>\<open>_write_to_file\<close> never opens the target for
  writing: the file it opens is the temporary file, which is not the target, and whose
  name splits into the directory of the target and \<^verbatim>\<open>._{token}_{basename}\<close> (for a
  token without separator, as the text of a UUID is); after that it only replaces the
  target by it. In every state the disk goes through, the target holds its prior contents
  or the complete new contents; and when the call succeeds, the target holds the new
  contents and the temporary file is gone.
\<close>

theorem write_concern_atomic:
  "tmp_name token p \<noteq> p
   \<and> (sep \<notin> set token \<longrightarrow>
        os_path_split (tmp_name token p)
          = (fst (os_path_split p), ''._'' @ token @ ''_'' @ snd (os_path_split p)))
   \<and> (io_log (snd (JSONCollection_write_to_file token (Some p) b True w))
        = io_log w @ [OpenWrite (tmp_name token p)]
      \<or> io_log (snd (JSONCollection_write_to_file token (Some p) b True w))
        = io_log w @ [OpenWrite (tmp_name token p), Replace (tmp_name token p) p])
   \<and> (\<forall>d \<in> set (write_to_file_trace token p b True w). d p = disk w p \<or> d p = Some (Regular b))
   \<and> last (write_to_file_trace token p b True w)
        = disk (snd (JSONCollection_write_to_file token (Some p) b True w))
   \<and> (fst (JSONCollection_write_to_file token (Some p) b True w) = Inr () \<longrightarrow>
        disk (snd (JSONCollection_write_to_file token (Some p) b True w)) p = Some (Regular b)
        \<and> disk (snd (JSONCollection_write_to_file token (Some p) b True w)) (tmp_name token p) = None)"
  using tmp_name_neq[of token p] tmp_name_split[of token p] write_concern_trace[of _ token p b w]
    write_concern_result[of token p b w]
  by (simp add: tmp_base_def)

lemma trace_nonempty: "write_to_file_trace token p b wc w \<noteq> []"
  by (auto simp: write_to_file_trace_def Let_def split: prod.splits sum.splits)

lemma write_concern_example:
  "fst (JSONCollection_write_to_file ''t'' (Some ''/d/doc.json'') ''[1]'' True
          (world0 [''/d/doc.json'' \<mapsto> Regular ''{}''])) = Inr ()"
  by (simp add: JSONCollection_write_to_file_def world0_def tmp_name_example open_wb_def file_write_def
        os_replace_def Let_def)

lemma split_example: "os_path_split ''/d/doc.json'' = (''/d'', ''doc.json'')"
  by code_simp

theorem write_concern_atomic_witness:
  "sep \<notin> set ''t''
   \<and> os_path_split (tmp_name ''t'' ''/d/doc.json'') = (''/d'', ''._t_doc.json'')
   \<and> fst (JSONCollection_write_to_file ''t'' (Some ''/d/doc.json'') ''[1]'' True
          (world0 [''/d/doc.json'' \<mapsto> Regular ''{}''])) = Inr ()
   \<and> disk (snd (JSONCollection_write_to_file ''t'' (Some ''/d/doc.json'') ''[1]'' True
          (world0 [''/d/doc.json'' \<mapsto> Regular ''{}'']))) ''/d/doc.json'' = Some (Regular ''[1]'')
   \<and> disk (snd (JSONCollection_write_to_file ''t'' (Some ''/d/doc.json'') ''[1]'' True
          (world0 [''/d/doc.json'' \<mapsto> Regular ''{}'']))) ''/d/._t_doc.json'' = None
   \<and> last (write_to_file_trace ''t'' ''/d/doc.json'' ''[1]'' True (world0 [''/d/doc.json'' \<mapsto> Regular ''{}'']))
       \<in> set (write_to_file_trace ''t'' ''/d/doc.json'' ''[1]'' True (world0 [''/d/doc.json'' \<mapsto> Regular ''{}'']))
   \<and> last (write_to_file_trace ''t'' ''/d/doc.json'' ''[1]'' True (world0 [''/d/doc.json'' \<mapsto> Regular ''{}'']))
        ''/d/doc.json'' = Some (Regular ''[1]'')"
proof -
  let ?w = "world0 [''/d/doc.json'' \<mapsto> Regular ''{}'']"
  have s: "sep \<notin> set ''t''" by (simp add: sep_def)
  note t = write_concern_atomic[of "''t''" "''/d/doc.json''" "''[1]''" ?w]
  from t s have sp: "os_path_split (tmp_name ''t'' ''/d/doc.json'')
          = (fst (os_path_split ''/d/doc.json''), ''._'' @ ''t'' @ ''_'' @ snd (os_path_split ''/d/doc.json''))"
    by blast
  from t write_concern_example
  have d: "disk (snd (JSONCollection_write_to_file ''t'' (Some ''/d/doc.json'') ''[1]'' True ?w)) ''/d/doc.json''
             = Some (Regular ''[1]'')"
    and d': "disk (snd (JSONCollection_write_to_file ''t'' (Some ''/d/doc.json'') ''[1]'' True ?w))
               (tmp_name ''t'' ''/d/doc.json'') = None"
    by blast+
  from t have l: "last (write_to_file_trace ''t'' ''/d/doc.json'' ''[1]'' True ?w)
        = disk (snd (JSONCollection_write_to_file ''t'' (Some ''/d/doc.json'') ''[1]'' True ?w))"
    by blast
  have m: "last (write_to_file_trace ''t'' ''/d/doc.json'' ''[1]'' True ?w)
       \<in> set (write_to_file_trace ''t'' ''/d/doc.json'' ''[1]'' True ?w)"
    by (rule last_in_set) (rule trace_nonempty)
  show ?thesis
    using s sp write_concern_example d d' l m
    by (simp add: split_example tmp_name_example)
qed

subsection \<open>Encoding and decoding\<close>

declare nat_str.simps [simp del]

lemma of_char_digit_char: "d < 10 \<Longrightarrow> (of_char (digit_char d) :: nat) = 48 + d"
  by (simp add: digit_char_def)

lemma is_digit_digit_char: "d < 10 \<Longrightarrow> is_digit (digit_char d)"
  by (simp add: is_digit_def of_char_digit_char)

lemma char_eq_of_char: "c = c' \<longleftrightarrow> (of_char c :: nat) = of_char c'"
  by simp

lemma nat_str_digits: "list_all is_digit (nat_str n)"
proof (induction n rule: nat_str.induct)
  case (1 n)
  show ?case
  proof (cases "n < 10")
    case True
    then show ?thesis by (subst nat_str.simps) (simp add: is_digit_digit_char)
  next
    case False
    then have "list_all is_digit (nat_str (n div 10))" using 1 by simp
    moreover have "is_digit (digit_char (n mod 10))" by (rule is_digit_digit_char) simp
    ultimately show ?thesis using False by (subst nat_str.simps) simp
  qed
qed

lemma nat_str_nonempty: "nat_str n \<noteq> []"
  by (subst nat_str.simps) simp

lemma digits_val_snoc: "digits_val (ds @ [c]) = 10 * digits_val ds + (of_char c - 48)"
  by (simp add: digits_val_def)

lemma digits_val_nat_str: "digits_val (nat_str n) = n"
proof (induction n rule: nat_str.induct)
  case (1 n)
  show ?case
  proof (cases "n < 10")
    case True
    then show ?thesis by (subst nat_str.simps) (simp add: digits_val_def of_char_digit_char)
  next
    case False
    then have "digits_val (nat_str (n div 10)) = n div 10" using 1 by simp
    then have "digits_val (nat_str (n div 10) @ [digit_char (n mod 10)]) = 10 * (n div 10) + n mod 10"
      by (simp add: digits_val_snoc of_char_digit_char)
    then show ?thesis using False by (subst nat_str.simps) simp
  qed
qed

lemma hd_nat_str: "hd (nat_str n) = CHR ''0'' \<longleftrightarrow> n = 0"
proof (induction n rule: nat_str.induct)
  case (1 n)
  show ?case
  proof (cases "n < 10")
    case True
    have "digit_char n = CHR ''0'' \<longleftrightarrow> n = 0"
      using True of_char_digit_char[of n] by (auto simp: char_eq_of_char simp del: of_char_eq_iff)
    then show ?thesis using True by (subst nat_str.simps) simp
  next
    case False
    then have "hd (nat_str n) = hd (nat_str (n div 10))"
      by (subst nat_str.simps) (simp add: nat_str_nonempty)
    then show ?thesis using 1 False by simp
  qed
qed

lemma nat_str_0: "nat_str 0 = ''0''"
  by code_simp

lemma delim_not_digit: "delim rest \<Longrightarrow> rest = [] \<or> \<not> is_digit (hd rest)"
  by (auto simp: delim_def is_digit_def)

lemma delim_no_frac: "delim rest \<Longrightarrow> match_frac rest = ([], rest) \<and> match_exp rest = (None, rest)"
  by (auto simp: delim_def match_frac_def match_exp_def split: list.splits)

lemma match_integer_nat_str:
  assumes "rest = [] \<or> \<not> is_digit (hd rest)"
  shows "match_integer (nat_str n @ rest) = Some (nat_str n, rest)"
proof (cases "n = 0")
  case True
  then show ?thesis by (simp add: nat_str_0 match_integer_def)
next
  case False
  obtain d ds where s: "nat_str n = d # ds" using nat_str_nonempty[of n] by (cases "nat_str n") auto
  have d0: "d \<noteq> CHR ''0''" using hd_nat_str[of n] False s by simp
  have dig: "is_digit d" "list_all is_digit ds" using nat_str_digits[of n] s by simp_all
  have tw: "takeWhile is_digit (ds @ rest) = ds"
    using dig(2) assms by (cases rest) (auto simp: list_all_iff takeWhile_append2 takeWhile_eq_all_conv[THEN iffD2])
  have dw: "dropWhile is_digit (ds @ rest) = rest"
    using dig(2) assms by (cases rest) (auto simp: list_all_iff dropWhile_append2)
  show ?thesis using d0 dig(1) tw dw by (simp add: s match_integer_def)
qed

lemma hd_nat_str_not_minus: "hd (nat_str n) \<noteq> CHR ''-''"
  using nat_str_digits[of n] nat_str_nonempty[of n]
  by (cases "nat_str n") (auto simp: is_digit_def)

lemma match_number_int_str:
  assumes "delim rest"
  shows "match_number (int_str i @ rest) = Some (VInt i, rest)"
proof (cases "i < 0")
  case True
  then have s: "int_str i = CHR ''-'' # nat_str (nat (- i))" by (simp add: int_str_def)
  show ?thesis
    using True delim_no_frac[OF assms]
    by (simp add: s match_number_def match_integer_nat_str[OF delim_not_digit[OF assms]]
          digits_val_nat_str)
next
  case False
  then have s: "int_str i = nat_str (nat i)" by (simp add: int_str_def)
  have ne: "nat_str (nat i) @ rest \<noteq> []" using nat_str_nonempty by simp
  have hd: "hd (nat_str (nat i) @ rest) \<noteq> CHR ''-''"
    using hd_nat_str_not_minus[of "nat i"] nat_str_nonempty[of "nat i"] by simp
  show ?thesis
    using False delim_no_frac[OF assms] hd
    by (simp add: s match_number_def match_integer_nat_str[OF delim_not_digit[OF assms]]
          digits_val_nat_str)
qed

text \<open>
  Floating-point numbers: rounding a number of the format gives the number back, so the
  digits that \<^verbatim>\<open>repr\<close> chooses, which are checked against the rounding or are the
  exact expansion, are read back as the number they were printed for.
\<close>

declare strip_zeros.simps [simp del]

lemma find_exp_least:
  assumes "e0 \<le> e" "nat (e - e0) < n"
    and "\<forall>e'. e0 \<le> e' \<and> e' < e \<longrightarrow> \<not> q < 2 powi (53 + e')"
    and "q < 2 powi (53 + e)"
  shows "find_exp q n e0 = e"
  using assms
proof (induction n arbitrary: e0)
  case 0
  then show ?case by simp
next
  case (Suc n)
  show ?case
  proof (cases "e0 = e")
    case True
    then show ?thesis using Suc.prems by simp
  next
    case False
    then have lt: "e0 < e" using Suc.prems by simp
    have "\<not> q < 2 powi (53 + e0)" using Suc.prems(3) lt by simp
    moreover have "find_exp q n (e0 + 1) = e"
      by (rule Suc.IH) (use Suc.prems lt in auto)
    ultimately show ?thesis by simp
  qed
qed

lemma round_half_even_of_nat: "round_half_even (of_nat m) = m"
  by (simp add: round_half_even_def)

lemma round_double_idem:
  assumes "valid_double (Finite s m e)"
  shows "round_double s (of_nat m * 2 powi e) = Finite s m e"
proof -
  let ?q = "of_nat m * 2 powi e :: rat"
  have b: "m < 2 ^ 53" "- 1074 \<le> e" "e \<le> 971" "2 ^ 52 \<le> m \<or> e = - 1074"
    using assms by simp_all
  have pos: "(0::rat) < 2 powi e" by simp
  have "(of_nat m :: rat) < 2 ^ 53" using b(1) by (metis of_nat_less_iff of_nat_numeral of_nat_power)
  then have "?q < 2 ^ 53 * 2 powi e" using pos by simp
  also have "\<dots> = 2 powi (53 + e)" by (simp add: power_int_add)
  finally have up: "?q < 2 powi (53 + e)" .
  have low: "\<forall>e'. - 1074 \<le> e' \<and> e' < e \<longrightarrow> \<not> ?q < 2 powi (53 + e')"
  proof (intro allI impI)
    fix e' assume e': "- 1074 \<le> e' \<and> e' < e"
    then have "2 ^ 52 \<le> m" using b(4) by auto
    then have m: "(2 ^ 52 :: rat) \<le> of_nat m" by (metis of_nat_le_iff of_nat_numeral of_nat_power)
    have "(2::rat) powi (53 + e') \<le> 2 powi (52 + e)"
      by (rule power_int_increasing) (use e' in auto)
    also have "\<dots> = 2 ^ 52 * 2 powi e" by (simp add: power_int_add)
    also have "\<dots> \<le> ?q" using m pos by simp
    finally show "\<not> ?q < 2 powi (53 + e')" by simp
  qed
  have fe: "find_exp ?q 2046 (- 1074) = e"
    by (rule find_exp_least) (use b up low in auto)
  have dv: "?q / 2 powi e = of_nat m" by simp
  show ?thesis
    using b(1,3) by (simp add: round_double_def Let_def fe dv round_half_even_of_nat del: of_nat_power)
qed

lemma round_double_zero: "round_double s 0 = Finite s 0 (- 1074)"
  using round_double_idem[of s 0 "- 1074"] by simp

lemma pick_sound:
  assumes "pick s m e n = Some c"
  shows "round_double s (decimal c) = Finite s m e"
proof -
  let ?P = "\<lambda>c. round_double s (decimal c) = Finite s m e"
  let ?xs = "filter ?P (candidates (of_nat m * 2 powi e) n)"
  have all: "\<forall>x \<in> set ?xs. ?P x" by simp
  show ?thesis
  proof (cases ?xs)
    case Nil
    then show ?thesis using assms by (simp add: pick_def Let_def)
  next
    case (Cons lo ys)
    note c1 = Cons
    show ?thesis
    proof (cases ys)
      case Nil
      then have "c = lo" using assms c1 by (simp add: pick_def Let_def)
      moreover have "?P lo" using all c1 by (metis list.set_intros(1))
      ultimately show ?thesis by simp
    next
      case (Cons hi zs)
      then have "c = lo \<or> c = hi" using assms c1 by (simp add: pick_def Let_def split: if_splits)
      moreover have "?P lo" "?P hi" using all c1 Cons by (metis list.set_intros)+
      ultimately show ?thesis by auto
    qed
  qed
qed

lemma first_pick_sound:
  "first_pick s m e ns = Some c \<Longrightarrow> round_double s (decimal c) = Finite s m e"
  by (induction ns) (auto simp: pick_sound split: option.splits)

lemma strip_zeros_decimal: "decimal (strip_zeros d k) = decimal (d, k)"
proof (induction d k rule: strip_zeros.induct)
  case (1 d k)
  show ?case
  proof (cases "d \<noteq> 0 \<and> d mod 10 = 0")
    case True
    then have d: "d = 10 * (d div 10)" by auto
    have "decimal (strip_zeros d k) = decimal (d div 10, k + 1)"
      using True 1 by (subst strip_zeros.simps) simp
    also have "\<dots> = of_nat (d div 10) * (10 * 10 powi k)"
      by (simp add: decimal_def power_int_add)
    also have "\<dots> = of_nat (10 * (d div 10)) * 10 powi k" by simp
    also have "\<dots> = decimal (d, k)" using d by (simp add: decimal_def)
    finally show ?thesis .
  next
    case False
    then show ?thesis by (subst strip_zeros.simps) auto
  qed
qed

lemma exact_decimal_value: "decimal (exact_decimal m e) = of_nat m * 2 powi e"
proof (cases "0 \<le> e")
  case True
  then show ?thesis by (simp add: exact_decimal_def decimal_def power_int_def)
next
  case False
  define n where "n = nat (- e)"
  have e: "e = - int n" using False by (simp add: n_def)
  have "(10::rat) ^ n = 5 ^ n * 2 ^ n" by (simp flip: power_mult_distrib)
  then show ?thesis using False
    by (simp add: exact_decimal_def decimal_def e power_int_minus field_simps)
qed

lemma shortest_decimal_sound:
  assumes "valid_double (Finite s m e)"
  shows "round_double s (decimal (shortest_decimal s m e)) = Finite s m e"
proof (cases "m = 0")
  case True
  then have "e = - 1074" using assms by simp
  then show ?thesis using True by (simp add: shortest_decimal_def decimal_def round_double_zero)
next
  case False
  show ?thesis
  proof (cases "first_pick s m e [1..<18]")
    case None
    obtain d k where dk: "exact_decimal m e = (d, k)" by (cases "exact_decimal m e")
    have "decimal (strip_zeros d k) = of_nat m * 2 powi e"
      using exact_decimal_value[of m e] by (simp add: strip_zeros_decimal dk)
    then show ?thesis using False None dk
      by (simp add: shortest_decimal_def round_double_idem[OF assms])
  next
    case (Some c)
    obtain d k where dk: "c = (d, k)" by (cases c)
    have "round_double s (decimal (d, k)) = Finite s m e"
      using first_pick_sound[OF Some] dk by simp
    then show ?thesis using False Some dk
      by (simp add: shortest_decimal_def strip_zeros_decimal)
  qed
qed

lemma shortest_decimal_nonzero:
  assumes "valid_double (Finite s m e)" "m \<noteq> 0"
  shows "fst (shortest_decimal s m e) \<noteq> 0"
proof
  assume "fst (shortest_decimal s m e) = 0"
  then have "decimal (shortest_decimal s m e) = 0" by (simp add: decimal_def)
  then have "round_double s 0 = Finite s m e" using shortest_decimal_sound[OF assms(1)] by simp
  then show False using assms(2) by (simp add: round_double_zero)
qed


lemma span_digits:
  assumes "list_all is_digit ds" "rest = [] \<or> \<not> is_digit (hd rest)"
  shows "takeWhile is_digit (ds @ rest) = ds" "dropWhile is_digit (ds @ rest) = rest"
  using assms
  by (cases rest; auto simp: list_all_iff takeWhile_append2 dropWhile_append2
        takeWhile_eq_all_conv[THEN iffD2])+

lemma digits_val_append: "digits_val (a @ b) = digits_val a * 10 ^ length b + digits_val b"
proof (induction b rule: rev_induct)
  case Nil
  then show ?case by (simp add: digits_val_def)
next
  case (snoc c b)
  have "digits_val (a @ b @ [c]) = 10 * digits_val (a @ b) + (of_char c - 48)"
    using digits_val_snoc[of "a @ b" c] by simp
  then show ?case using snoc by (simp add: digits_val_snoc algebra_simps)
qed

lemma digits_val_zeros: "digits_val (replicate n CHR ''0'') = 0"
proof (induction n)
  case 0
  then show ?case by (simp add: digits_val_def)
next
  case (Suc n)
  have "digits_val (replicate n CHR ''0'' @ [CHR ''0'']) = 0"
    using Suc by (simp only: digits_val_snoc) simp
  then show ?case by (simp add: replicate_append_same)
qed

lemma digits_val_Nil: "digits_val [] = 0"
  by (simp add: digits_val_def)

lemma digits_val_zero_digit: "digits_val ''0'' = 0"
  by (simp add: digits_val_def)

lemma is_digit_zero: "is_digit CHR ''0''"
  by (simp add: is_digit_def)

lemma zeros_digits: "list_all is_digit (replicate n CHR ''0'')"
  by (simp add: list_all_iff is_digit_zero)

lemma match_integer_zero:
  "match_integer (CHR ''0'' # r) = Some (''0'', r)"
  by (simp add: match_integer_def)

lemma match_integer_digits:
  assumes "ds \<noteq> []" "hd ds \<noteq> CHR ''0''" "list_all is_digit ds" "rest = [] \<or> \<not> is_digit (hd rest)"
  shows "match_integer (ds @ rest) = Some (ds, rest)"
proof -
  obtain c cs where ds: "ds = c # cs" using assms(1) by (cases ds) auto
  have "list_all is_digit cs" "is_digit c" "c \<noteq> CHR ''0''" using assms ds by simp_all
  then show ?thesis
    using span_digits[of cs rest] assms(4) by (simp add: ds match_integer_def)
qed

lemma match_frac_digits:
  assumes "fs \<noteq> []" "list_all is_digit fs" "rest = [] \<or> \<not> is_digit (hd rest)"
  shows "match_frac (CHR ''.'' # fs @ rest) = (fs, rest)"
proof -
  obtain c cs where fs: "fs = c # cs" using assms(1) by (cases fs) auto
  have "is_digit c" using assms(2) fs by simp
  then show ?thesis
    using span_digits[OF assms(2,3)] by (simp add: fs match_frac_def)
qed

lemma match_frac_none: "s = [] \<or> hd s \<noteq> CHR ''.'' \<Longrightarrow> match_frac s = ([], s)"
  by (auto simp: match_frac_def split: list.splits)

lemma exp_str_start:
  "\<exists>c ds. exp_str x = c # ds \<and> ds \<noteq> [] \<and> list_all is_digit ds \<and> digits_val ds = nat \<bar>x\<bar>
     \<and> (c = CHR ''-'' \<or> c = CHR ''+'') \<and> (c = CHR ''-'' \<longleftrightarrow> x < 0)"
proof -
  let ?ds = "(if \<bar>x\<bar> < 10 then ''0'' else '''') @ nat_str (nat \<bar>x\<bar>)"
  have "exp_str x = (if x < 0 then CHR ''-'' else CHR ''+'') # ?ds"
    by (simp add: exp_str_def)
  moreover have "?ds \<noteq> []" using nat_str_nonempty by simp
  moreover have "list_all is_digit ?ds" using nat_str_digits by (simp add: is_digit_zero)
  moreover have "digits_val ?ds = nat \<bar>x\<bar>"
    using digits_val_append[of "''0''" "nat_str (nat \<bar>x\<bar>)"]
    by (simp add: digits_val_nat_str digits_val_zero_digit)
  ultimately show ?thesis by (intro exI[of _ "if x < 0 then CHR ''-'' else CHR ''+''"] exI[of _ ?ds]) simp
qed

lemma match_exp_exp_str:
  assumes "rest = [] \<or> \<not> is_digit (hd rest)"
  shows "match_exp (CHR ''e'' # exp_str x @ rest) = (Some x, rest)"
proof -
  obtain c ds where e: "exp_str x = c # ds" and ds: "ds \<noteq> []" "list_all is_digit ds"
    "digits_val ds = nat \<bar>x\<bar>" and c: "c = CHR ''-'' \<or> c = CHR ''+''" "c = CHR ''-'' \<longleftrightarrow> x < 0"
    using exp_str_start[of x] by blast
  have nd: "\<not> is_digit c" using c(1) by (auto simp: is_digit_def)
  have hd: "is_digit (hd (ds @ rest))" using ds(1,2) by (cases ds) auto
  show ?thesis
    using span_digits[OF ds(2) assms] nd hd ds(1,3) c
    by (auto simp: e match_exp_def)
qed


lemma match_number_parts:
  assumes "match_integer T = Some (ip, r1)" "match_frac r1 = (fs, r2)" "match_exp r2 = (ex, rest)"
    and "fs \<noteq> [] \<or> ex \<noteq> None" "T \<noteq> []" "hd T \<noteq> CHR ''-''"
  shows "match_number ((if s then ''-'' else '''') @ T)
           = Some (VFloat (float_of_parts s ip fs (case ex of None \<Rightarrow> 0 | Some x \<Rightarrow> x)), rest)"
  using assms by (cases s) (auto simp: match_number_def)

lemma not_digit_chars: "\<not> is_digit CHR ''.''" "\<not> is_digit CHR ''e''" "\<not> is_digit CHR ''-''"
  by (simp_all add: is_digit_def)

lemma powi_shift: "of_nat (a * 10 ^ n) * (10::rat) powi (k - int n) = of_nat a * 10 powi k"
  by (simp add: power_int_diff)

lemma match_number_format:
  assumes "delim rest" "0 < d \<or> decpt = 1"
  shows "match_number ((if s then ''-'' else '''') @ format_float_short (nat_str d) decpt @ rest)
           = Some (VFloat (round_double s (decimal (d, decpt - int (length (nat_str d))))), rest)"
proof -
  define ds where "ds = nat_str d"
  define L where "L = length ds"
  have ne: "ds \<noteq> []" and dig: "list_all is_digit ds" and val: "digits_val ds = d"
    and h0: "hd ds = CHR ''0'' \<longleftrightarrow> d = 0"
    by (simp_all add: ds_def nat_str_nonempty nat_str_digits digits_val_nat_str hd_nat_str)
  have L1: "1 \<le> L" using ne by (cases ds) (simp_all add: L_def)
  have d0: "d = 0 \<Longrightarrow> L = 1" by (simp add: L_def ds_def nat_str_0)
  have nd: "rest = [] \<or> \<not> is_digit (hd rest)" by (rule delim_not_digit[OF assms(1)])
  have nfe: "match_frac rest = ([], rest)" "match_exp rest = (None, rest)"
    using delim_no_frac[OF assms(1)] by simp_all
  have hdig: "is_digit (hd ds)" using ne dig by (cases ds) simp_all
  have hm: "hd ds \<noteq> CHR ''-''" using hdig by (auto simp: is_digit_def)
  let ?T = "format_float_short ds decpt @ rest"
  let ?goal = "match_number ((if s then ''-'' else '''') @ ?T)
           = Some (VFloat (round_double s (decimal (d, decpt - int L))), rest)"
  consider (A) "decpt \<le> - 4 \<or> 16 < decpt"
    | (B) "- 4 < decpt" "decpt \<le> 0"
    | (C) "0 < decpt" "decpt < int L" "decpt \<le> 16"
    | (D) "int L \<le> decpt" "decpt \<le> 16" "0 < decpt" using L1 by linarith
  then have ?goal
  proof cases
    case A
    then have dpos: "d \<noteq> 0" using assms(2) by auto
    obtain h t where ht: "ds = h # t" using ne by (cases ds) auto
    have h: "is_digit h" "h \<noteq> CHR ''0''" "h \<noteq> CHR ''-''" and t: "list_all is_digit t"
      using dig h0 dpos ht hm by simp_all
    let ?x = "decpt - 1"
    let ?E = "CHR ''e'' # exp_str ?x @ rest"
    have me: "match_exp ?E = (Some ?x, rest)" by (rule match_exp_exp_str[OF nd])
    show ?thesis
    proof (cases "t = []")
      case True
      have T: "?T = [h] @ ?E" using A True by (simp add: format_float_short_def ht)
      have mi: "match_integer ([h] @ ?E) = Some ([h], ?E)"
        by (rule match_integer_digits) (use h not_digit_chars in simp_all)
      have mf: "match_frac ?E = ([], ?E)" by (rule match_frac_none) simp
      have "match_number ((if s then ''-'' else '''') @ [h] @ ?E)
              = Some (VFloat (float_of_parts s [h] [] (case Some ?x of None \<Rightarrow> 0 | Some x \<Rightarrow> x)), rest)"
        by (rule match_number_parts[OF mi mf me]) (use h in simp_all)
      moreover have "float_of_parts s [h] [] ?x = round_double s (decimal (d, decpt - int L))"
        using val True by (simp add: float_of_parts_def decimal_def ht L_def)
      ultimately show ?thesis by (simp only: T option.case)
    next
      case False
      let ?F = "CHR ''.'' # t @ ?E"
      have T: "?T = [h] @ ?F" using A False by (cases t) (simp_all add: format_float_short_def ht)
      have mi: "match_integer ([h] @ ?F) = Some ([h], ?F)"
        by (rule match_integer_digits) (use h not_digit_chars in simp_all)
      have mf: "match_frac ?F = (t, ?E)"
        by (rule match_frac_digits[OF False t]) (simp add: not_digit_chars)
      have "match_number ((if s then ''-'' else '''') @ [h] @ ?F)
              = Some (VFloat (float_of_parts s [h] t (case Some ?x of None \<Rightarrow> 0 | Some x \<Rightarrow> x)), rest)"
        by (rule match_number_parts[OF mi mf me]) (use h in simp_all)
      moreover have eq: "decpt - 1 - int (length t) = decpt - int L" by (simp add: L_def ht)
      have "float_of_parts s [h] t ?x = round_double s (decimal (d, decpt - int L))"
        unfolding float_of_parts_def decimal_def eq using val by (simp add: ht)
      ultimately show ?thesis by (simp only: T option.case)
    qed
  next
    case B
    then have dpos: "d \<noteq> 0" using assms(2) by auto
    define n where "n = nat (- decpt)"
    let ?fs = "replicate n CHR ''0'' @ ds"
    let ?F = "CHR ''.'' # ?fs @ rest"
    have T: "?T = CHR ''0'' # ?F" using B by (simp add: format_float_short_def n_def)
    have mi: "match_integer (CHR ''0'' # ?F) = Some (''0'', ?F)" by (rule match_integer_zero)
    have mf: "match_frac ?F = (?fs, rest)"
      by (rule match_frac_digits) (use ne dig nd zeros_digits in simp_all)
    have "match_number ((if s then ''-'' else '''') @ CHR ''0'' # ?F)
            = Some (VFloat (float_of_parts s ''0'' ?fs (case None of None \<Rightarrow> 0 | Some x \<Rightarrow> x)), rest)"
      by (rule match_number_parts[OF mi mf nfe(2)]) (use ne in simp_all)
    moreover have "digits_val (''0'' @ ?fs) = d"
      using digits_val_append[of "''0''" ?fs] digits_val_append[of "replicate n CHR ''0''" ds]
      by (simp add: digits_val_zero_digit digits_val_zeros val)
    moreover have "0 - int (length ?fs) = decpt - int L" using B by (simp add: n_def L_def)
    ultimately have "float_of_parts s ''0'' ?fs 0 = round_double s (decimal (d, decpt - int L))"
      by (simp only: float_of_parts_def decimal_def fst_conv snd_conv)
    with \<open>match_number _ = _\<close> show ?thesis by (simp only: T option.case)
  next
    case C
    define p where "p = nat decpt"
    have p: "0 < p" "p < L" using C by (simp_all add: p_def)
    then have "2 \<le> L" by simp
    then have dpos: "d \<noteq> 0" using d0 by auto
    let ?ip = "take p ds" and ?fs = "drop p ds"
    let ?F = "CHR ''.'' # ?fs @ rest"
    have T: "?T = ?ip @ ?F" using C by (simp add: format_float_short_def p_def L_def)
    have ipne: "?ip \<noteq> []" using p ne by simp
    have hip: "hd ?ip = hd ds" using p by (simp add: hd_take)
    have mi: "match_integer (?ip @ ?F) = Some (?ip, ?F)"
      by (rule match_integer_digits[OF ipne])
        (use hip h0 dpos dig not_digit_chars in \<open>auto simp: list_all_iff dest: in_set_takeD\<close>)
    have mf: "match_frac ?F = (?fs, rest)"
      by (rule match_frac_digits)
        (use p dig nd in \<open>auto simp: list_all_iff L_def dest: in_set_dropD\<close>)
    have "match_number ((if s then ''-'' else '''') @ ?ip @ ?F)
            = Some (VFloat (float_of_parts s ?ip ?fs (case None of None \<Rightarrow> 0 | Some x \<Rightarrow> x)), rest)"
      by (rule match_number_parts[OF mi mf nfe(2)]) (use ipne hip hm p L_def in simp_all)
    moreover have "0 - int (length ?fs) = decpt - int L" using C by (simp add: p_def L_def)
    ultimately have "match_number ((if s then ''-'' else '''') @ ?ip @ ?F)
            = Some (VFloat (round_double s (decimal (d, decpt - int L))), rest)"
      by (simp add: float_of_parts_def decimal_def val)
    then show ?thesis by (simp only: T)
  next
    case D
    define n where "n = nat (decpt - int L)"
    let ?ip = "ds @ replicate n CHR ''0''"
    let ?F = "CHR ''.'' # ''0'' @ rest"
    have T: "?T = ?ip @ ?F" using D by (simp add: format_float_short_def n_def L_def)
    have mi: "match_integer (?ip @ ?F) = Some (?ip, ?F)"
    proof (cases "d = 0")
      case True
      then have "decpt = 1" "L = 1" using assms(2) d0 by auto
      then have "n = 0" by (simp add: n_def)
      then show ?thesis using True by (simp add: ds_def nat_str_0 match_integer_zero)
    next
      case False
      show ?thesis
        by (rule match_integer_digits)
          (use ne h0 False dig zeros_digits not_digit_chars in simp_all)
    qed
    have mf: "match_frac ?F = (''0'', rest)"
      by (rule match_frac_digits) (use nd is_digit_zero in simp_all)
    have "match_number ((if s then ''-'' else '''') @ ?ip @ ?F)
            = Some (VFloat (float_of_parts s ?ip ''0'' (case None of None \<Rightarrow> 0 | Some x \<Rightarrow> x)), rest)"
      by (rule match_number_parts[OF mi mf nfe(2)]) (use ne hm in simp_all)
    moreover have "digits_val (?ip @ ''0'') = d * 10 ^ (n + 1)"
      using digits_val_append[of ?ip "''0''"] digits_val_append[of ds "replicate n CHR ''0''"]
      by (simp add: digits_val_zero_digit digits_val_zeros val)
    moreover have "decpt - int L = int n" using D by (simp add: n_def)
    moreover have "of_nat (d * 10 ^ (n + 1)) * (10::rat) powi (int n - int (n + 1)) = of_nat d * 10 powi (int n)"
      by (rule powi_shift)
    ultimately have "match_number ((if s then ''-'' else '''') @ ?ip @ ?F)
            = Some (VFloat (round_double s (decimal (d, decpt - int L))), rest)"
      by (simp add: float_of_parts_def decimal_def)
    then show ?thesis by (simp only: T)
  qed
  then show ?thesis by (simp only: ds_def[symmetric] L_def[symmetric])
qed


lemma format_float_short_start:
  assumes "ds \<noteq> []" "is_digit (hd ds)"
  shows "\<exists>c cs. format_float_short ds decpt = c # cs \<and> is_digit c"
proof -
  obtain h t where ht: "ds = h # t" using assms(1) by (cases ds) auto
  have h: "is_digit h" using assms(2) ht by simp
  consider (A) "decpt \<le> - 4 \<or> 16 < decpt"
    | (B) "- 4 < decpt" "decpt \<le> 0"
    | (C) "0 < decpt" "decpt < int (length ds)" "decpt \<le> 16"
    | (D) "int (length ds) \<le> decpt" "decpt \<le> 16" "0 < decpt" by linarith
  then show ?thesis
  proof cases
    case A
    then show ?thesis using h by (simp add: format_float_short_def ht)
  next
    case B
    then show ?thesis by (simp add: format_float_short_def is_digit_zero)
  next
    case C
    then obtain p where p: "nat decpt = Suc p" by (cases "nat decpt") auto
    then show ?thesis using C h by (simp add: format_float_short_def ht)
  next
    case D
    then show ?thesis using h by (simp add: format_float_short_def ht)
  qed
qed

lemma float_repr_finite_start:
  "\<exists>c cs. float_repr (Finite s m e) = c # cs \<and> (c = CHR ''-'' \<or> is_digit c)"
proof -
  obtain d k where dk: "shortest_decimal s m e = (d, k)" by (cases "shortest_decimal s m e")
  have "is_digit (hd (nat_str d))"
    using nat_str_digits[of d] nat_str_nonempty[of d] by (cases "nat_str d") simp_all
  then obtain c cs where "format_float_short (nat_str d) (k + int (length (nat_str d))) = c # cs" "is_digit c"
    using format_float_short_start[OF nat_str_nonempty] by blast
  then show ?thesis using dk by (cases s) simp_all
qed

lemma floatstr_start: "\<exists>c cs. floatstr x = c # cs \<and> value_start c"
proof (cases x)
  case (Finite s m e)
  then show ?thesis using float_repr_finite_start[of s m e] by (auto simp: value_start_def)
next
  case (Infinite s)
  then show ?thesis by (simp add: value_start_def)
next
  case NaN
  then show ?thesis by (simp add: value_start_def)
qed

lemma nat_str_ascii: "list_all is_ascii_char (nat_str n)"
  using nat_str_digits[of n] by (auto simp: list_all_iff is_digit_def is_ascii_char_def)

lemma exp_str_ascii: "list_all is_ascii_char (exp_str x)"
proof -
  have "list_all is_ascii_char (nat_str n)" for n
    by (rule nat_str_ascii)
  moreover have "is_ascii_char CHR ''-''" "is_ascii_char CHR ''+''" "is_ascii_char CHR ''0''"
    by (simp_all add: is_ascii_char_def)
  ultimately show ?thesis by (simp add: exp_str_def)
qed

lemma format_float_short_ascii:
  assumes "list_all is_ascii_char ds" "ds \<noteq> []"
  shows "list_all is_ascii_char (format_float_short ds decpt)"
proof -
  have c: "is_ascii_char CHR ''.''" "is_ascii_char CHR ''e''" "is_ascii_char CHR ''0''"
    by (simp_all add: is_ascii_char_def)
  have "is_ascii_char (hd ds)" "list_all is_ascii_char (tl ds)"
    using assms by (cases ds; simp)+
  moreover have "list_all is_ascii_char (take n ds)" "list_all is_ascii_char (drop n ds)" for n
    using assms(1) by (auto simp: list_all_iff dest: in_set_takeD in_set_dropD)
  moreover have "list_all is_ascii_char (replicate n CHR ''0'')" for n
    using c by (simp add: list_all_iff)
  ultimately show ?thesis
    using assms(1) c exp_str_ascii by (simp add: format_float_short_def)
qed

lemma floatstr_ascii: "list_all is_ascii_char (floatstr x)"
proof (cases x)
  case (Finite s m e)
  obtain d k where dk: "shortest_decimal s m e = (d, k)" by (cases "shortest_decimal s m e")
  have "list_all is_ascii_char (nat_str d)"
    by (rule nat_str_ascii)
  then have "list_all is_ascii_char (format_float_short (nat_str d) (k + int (length (nat_str d))))"
    by (rule format_float_short_ascii) (rule nat_str_nonempty)
  moreover have "is_ascii_char CHR ''-''" by (simp add: is_ascii_char_def)
  ultimately show ?thesis by (simp add: Finite dk)
next
  case (Infinite s)
  then show ?thesis by (simp add: is_ascii_char_def)
next
  case NaN
  then show ?thesis by (simp add: is_ascii_char_def)
qed

lemma match_number_floatstr:
  assumes "valid_double x" "delim rest"
  shows "match_number (floatstr x @ rest) = Some (VFloat x, rest)"
proof -
  obtain s m e where x: "x = Finite s m e" using assms(1) by (cases x) simp_all
  have v: "valid_double (Finite s m e)" using assms(1) x by simp
  obtain d k where dk: "shortest_decimal s m e = (d, k)" by (cases "shortest_decimal s m e")
  let ?L = "int (length (nat_str d))"
  have "0 < d \<or> k + ?L = 1"
  proof (cases "m = 0")
    case True
    then have "d = 0" "k = 0" using dk by (simp_all add: shortest_decimal_def)
    then show ?thesis by (simp add: nat_str_0)
  next
    case False
    then show ?thesis using shortest_decimal_nonzero[OF v] dk by simp
  qed
  then have "match_number ((if s then ''-'' else '''') @ format_float_short (nat_str d) (k + ?L) @ rest)
           = Some (VFloat (round_double s (decimal (d, k + ?L - ?L))), rest)"
    by (rule match_number_format[OF assms(2)])
  moreover have "round_double s (decimal (d, k)) = Finite s m e"
    using shortest_decimal_sound[OF v] dk by simp
  ultimately show ?thesis by (simp add: x dk)
qed

lemma of_char_hex_char: "d < 16 \<Longrightarrow> (of_char (hex_char d) :: nat) = (if d < 10 then 48 + d else 87 + d)"
  by (simp add: hex_char_def)

lemma hex_val_hex_char: "d < 16 \<Longrightarrow> hex_val (hex_char d) = Some d"
  by (simp add: hex_val_def of_char_hex_char Let_def)

lemma hex_recompose:
  "((n div 4096 * 16 + n div 256 mod 16) * 16 + n div 16 mod 16) * 16 + n mod 16 = (n::nat)"
proof -
  have a: "n div 4096 = n div 256 div 16" and b: "n div 256 = n div 16 div 16"
    by (simp_all add: div_mult2_eq[symmetric])
  have "n div 4096 * 16 + n div 256 mod 16 = n div 256"
    by (simp only: a div_mult_mod_eq)
  then have "(n div 4096 * 16 + n div 256 mod 16) * 16 + n div 16 mod 16 = n div 16"
    by (simp only: b div_mult_mod_eq)
  then show ?thesis by (simp only: div_mult_mod_eq)
qed

lemma decode_hex_chars:
  assumes "a < 16" "b < 16" "c < 16" "d < 16"
  shows "decode_uXXXX (hex_char a # hex_char b # hex_char c # hex_char d # rest)
           = Some (((a * 16 + b) * 16 + c) * 16 + d)"
  using assms by (simp add: hex_val_hex_char)

lemma decode_hex4:
  assumes "n < 65536"
  shows "decode_uXXXX (hex4 n @ rest) = Some n"
proof -
  have "n div 4096 < 16" using assms by simp
  then have m: "n div 4096 mod 16 = n div 4096" by simp
  have "decode_uXXXX (hex4 n @ rest)
          = Some (((n div 4096 mod 16 * 16 + n div 256 mod 16) * 16 + n div 16 mod 16) * 16 + n mod 16)"
    unfolding hex4_def append_Cons append_Nil by (rule decode_hex_chars) simp_all
  then show ?thesis by (simp only: m hex_recompose)
qed

lemma length_hex4 [simp]: "length (hex4 n) = 4"
  by (simp add: hex4_def)

lemma prepend_Inr [simp]: "prepend ch (Inr (s, rest)) = Inr (ch # s, rest)"
  by (simp add: prepend_def)

lemma special_chars [simp]:
  "quote_char \<noteq> backslash_char" "backslash_char \<noteq> quote_char"
  "backslash_char \<noteq> CHR ''u''" "quote_char \<noteq> CHR ''u''"
  by (simp_all add: quote_char_def backslash_char_def)

lemma backslash_values:
  "backslash quote_char = Some 34" "backslash backslash_char = Some 92"
  "backslash CHR ''n'' = Some 10" "backslash CHR ''r'' = Some 13" "backslash CHR ''t'' = Some 9"
  "backslash CHR ''b'' = Some 8" "backslash CHR ''f'' = Some 12"
  by (simp_all add: backslash_def quote_char_def backslash_char_def)

declare scanstring.simps(2) [simp del]

lemma scanstring_quote: "scanstring (quote_char # rest) = Inr ([], rest)"
  by (simp add: scanstring.simps(2))

lemma scanstring_two:
  assumes "backslash e = Some n" and "e \<noteq> CHR ''u''"
  shows "scanstring (backslash_char # e # rest) = prepend n (scanstring rest)"
  using assms by (simp add: scanstring.simps(2)[of backslash_char])

lemma scanstring_literal:
  assumes "32 \<le> n" and "n \<le> 126" and "n \<noteq> 34" and "n \<noteq> 92"
  shows "scanstring (char_of n # rest) = prepend n (scanstring rest)"
proof -
  have o: "(of_char (char_of n :: char) :: nat) = n" using assms by simp
  have "char_of n \<noteq> quote_char" "char_of n \<noteq> backslash_char"
    using assms o by (auto simp: quote_char_def backslash_char_def char_eq_of_char simp del: of_char_eq_iff of_char_of)
  then show ?thesis using assms o by (simp add: scanstring.simps(2)[of "char_of n"])
qed

lemma scanstring_u:
  "scanstring (backslash_char # CHR ''u'' # cs) =
     (case decode_uXXXX cs of
        None \<Rightarrow> Inl JSONDecodeError
      | Some uni \<Rightarrow>
          if 0xd800 \<le> uni \<and> uni \<le> 0xdbff
             \<and> take 2 (drop 4 cs) = [backslash_char, CHR ''u'']
             \<and> 6 < length (drop 4 cs)
          then
            (case decode_uXXXX (drop 6 cs) of
               None \<Rightarrow> Inl JSONDecodeError
             | Some uni2 \<Rightarrow>
                 if 0xdc00 \<le> uni2 \<and> uni2 \<le> 0xdfff
                 then prepend (0x10000 + ((uni - 0xd800) * 1024 + (uni2 - 0xdc00)))
                        (scanstring (drop 10 cs))
                 else prepend uni (scanstring (drop 4 cs)))
          else prepend uni (scanstring (drop 4 cs)))"
  by (simp add: scanstring.simps(2)[of backslash_char])

lemma scanstring_bmp:
  assumes "n < 65536" and "\<not> (0xd800 \<le> n \<and> n \<le> 0xdbff)"
  shows "scanstring (backslash_char # CHR ''u'' # hex4 n @ rest) = prepend n (scanstring rest)"
proof -
  have "decode_uXXXX (hex4 n @ rest) = Some n" using assms(1) by (rule decode_hex4)
  moreover have "drop 4 (hex4 n @ rest) = rest" by simp
  moreover have "\<not> (0xd800 \<le> n \<and> n \<le> 0xdbff
             \<and> take 2 (drop 4 (hex4 n @ rest)) = [backslash_char, CHR ''u'']
             \<and> 6 < length (drop 4 (hex4 n @ rest)))"
    using assms(2) by blast
  ultimately show ?thesis by (simp only: scanstring_u option.case if_False)
qed

lemma scanstring_pair:
  assumes "0xd800 \<le> s1" and "s1 \<le> 0xdbff" and "0xdc00 \<le> s2" and "s2 \<le> 0xdfff" and "rest \<noteq> []"
  shows "scanstring (backslash_char # CHR ''u'' # hex4 s1 @ backslash_char # CHR ''u'' # hex4 s2 @ rest)
           = prepend (0x10000 + ((s1 - 0xd800) * 1024 + (s2 - 0xdc00))) (scanstring rest)"
proof -
  let ?cs = "hex4 s1 @ backslash_char # CHR ''u'' # hex4 s2 @ rest"
  have d1: "decode_uXXXX ?cs = Some s1"
    using assms by (intro decode_hex4) simp
  have d2: "decode_uXXXX (hex4 s2 @ rest) = Some s2"
    using assms by (intro decode_hex4) simp
  have dr4: "drop 4 ?cs = backslash_char # CHR ''u'' # hex4 s2 @ rest"
    by simp
  have dr6: "drop 6 ?cs = hex4 s2 @ rest"
    using arg_cong[OF dr4, of "drop 2"] by (simp add: numeral_2_eq_2)
  have dr10: "drop 10 ?cs = rest"
    using arg_cong[OF dr6, of "drop 4"] by simp
  have tk: "take 2 (drop 4 ?cs) = [backslash_char, CHR ''u'']"
    by (simp only: dr4) (simp add: numeral_2_eq_2)
  have len: "6 < length (drop 4 ?cs)"
    using assms(5) by (simp only: dr4) (cases rest, simp_all)
  have c1: "0xd800 \<le> s1 \<and> s1 \<le> 0xdbff \<and> take 2 (drop 4 ?cs) = [backslash_char, CHR ''u'']
              \<and> 6 < length (drop 4 ?cs)"
    using assms(1,2) tk len by blast
  have c2: "0xdc00 \<le> s2 \<and> s2 \<le> 0xdfff" using assms(3,4) by blast
  show ?thesis
    by (simp only: scanstring_u[of ?cs] d1 option.case c1 if_True dr6 d2 c2 dr10) simp
qed

lemma scanstring_escape:
  assumes "valid_code_point n" and "rest \<noteq> []"
  shows "scanstring (escape_char n @ rest) = prepend n (scanstring rest)"
proof -
  consider "n = 34" | "n = 92" | "n = 10" | "n = 13" | "n = 9" | "n = 8" | "n = 12"
    | "32 \<le> n" "n \<le> 126" "n \<noteq> 34" "n \<noteq> 92"
    | "n \<notin> {34, 92, 10, 13, 9, 8, 12}" "\<not> (32 \<le> n \<and> n \<le> 126)" "n < 0x10000"
    | "\<not> (32 \<le> n \<and> n \<le> 126)" "0x10000 \<le> n"
    by force
  then show ?thesis
  proof cases
    case 8
    then have "escape_char n = [char_of n]" by (simp add: escape_char_def)
    then show ?thesis using scanstring_literal[OF 8] by simp
  next
    case 9
    then have e: "escape_char n = backslash_char # CHR ''u'' # hex4 n"
      by (simp add: escape_char_def)
    have "\<not> (0xd800 \<le> n \<and> n \<le> 0xdbff)"
      using assms(1) by (auto simp: valid_code_point_def)
    from scanstring_bmp[OF 9(3) this] show ?thesis by (simp add: e)
  next
    case 10
    define v where "v = n - 0x10000"
    define s1 where "s1 = 0xd800 + v div 1024 mod 1024"
    define s2 where "s2 = 0xdc00 + v mod 1024"
    have v: "v < 0x100000" using assms(1) 10 by (simp add: valid_code_point_def v_def)
    then have d: "v div 1024 < 1024" by simp
    have e: "escape_char n = backslash_char # CHR ''u'' # hex4 s1 @ backslash_char # CHR ''u'' # hex4 s2"
      using 10 by (simp add: escape_char_def Let_def v_def s1_def s2_def)
    have b: "0xd800 \<le> s1" "s1 \<le> 0xdbff" "0xdc00 \<le> s2" "s2 \<le> 0xdfff"
      using d by (simp_all add: s1_def s2_def)
    have "(s1 - 0xd800) * 1024 + (s2 - 0xdc00) = v div 1024 * 1024 + v mod 1024"
      using d by (simp add: s1_def s2_def)
    also have "\<dots> = v" by (simp only: div_mult_mod_eq)
    finally have "0x10000 + ((s1 - 0xd800) * 1024 + (s2 - 0xdc00)) = n"
      using 10 by (simp add: v_def)
    then show ?thesis using scanstring_pair[OF b assms(2)] by (simp add: e)
  qed (simp_all add: escape_char_def scanstring_two backslash_values)
qed

lemma scanstring_encode:
  assumes "list_all valid_code_point s"
  shows "scanstring (concat (map escape_char s) @ quote_char # rest) = Inr (s, rest)"
  using assms
proof (induction s)
  case Nil
  then show ?case by (simp add: scanstring_quote)
next
  case (Cons n s)
  then have "scanstring (escape_char n @ (concat (map escape_char s) @ quote_char # rest))
               = prepend n (scanstring (concat (map escape_char s) @ quote_char # rest))"
    by (intro scanstring_escape) simp_all
  then show ?case using Cons by simp
qed

declare scan_once.simps(3) [simp del] JSONArray.simps(2) [simp del] JSONObject.simps(2) [simp del]

lemma JSONArray_Suc:
  "JSONArray (Suc n) s =
     (case scan_once n s of
        Inl e \<Rightarrow> Inl e
      | Inr (val, rest) \<Rightarrow>
          (case array_rest n rest of
             Inl e \<Rightarrow> Inl e
           | Inr (values, rest') \<Rightarrow> Inr (val # values, rest')))"
  by (simp add: JSONArray.simps(2) array_rest_def split: sum.splits list.splits prod.splits)

lemma JSONObject_Suc:
  "JSONObject (Suc n) s =
     (case scanstring s of
        Inl e \<Rightarrow> Inl e
      | Inr (key, rest) \<Rightarrow>
          (case skip_ws rest of
             [] \<Rightarrow> Inl JSONDecodeError
           | c # rest1 \<Rightarrow>
               if c \<noteq> CHR '':'' then Inl JSONDecodeError
               else
                 (case scan_once n (skip_ws rest1) of
                    Inl e \<Rightarrow> Inl e
                  | Inr (val, rest2) \<Rightarrow>
                      (case object_rest n rest2 of
                         Inl e \<Rightarrow> Inl e
                       | Inr (pairs, rest') \<Rightarrow> Inr ((KStr key, val) # pairs, rest')))))"
  by (simp add: JSONObject.simps(2) object_rest_def split: sum.splits list.splits prod.splits)

lemma value_start_props:
  assumes "value_start c"
  shows "\<not> is_ws c" "c \<noteq> CHR '']''" "c \<noteq> CHR ''}''" "c \<noteq> CHR '',''" "c \<noteq> CHR '':''"
  using assms by (auto simp: value_start_def is_ws_def is_digit_def quote_char_def)

lemma int_str_start: "\<exists>c cs. int_str i = c # cs \<and> (c = CHR ''-'' \<or> is_digit c)"
proof (cases "i < 0")
  case True
  then show ?thesis by (simp add: int_str_def)
next
  case False
  obtain d ds where "nat_str (nat i) = d # ds" using nat_str_nonempty[of "nat i"] by (cases "nat_str (nat i)") auto
  moreover from this have "is_digit d" using nat_str_digits[of "nat i"] by simp
  ultimately show ?thesis using False by (simp add: int_str_def)
qed

lemma json_dumps_start: "\<exists>c cs. json_dumps v = c # cs \<and> value_start c"
proof (cases v)
  case (VInt i)
  then show ?thesis using int_str_start[of i] by (auto simp: value_start_def)
next
  case (VList elems)
  then show ?thesis by (cases elems) (auto simp: value_start_def)
next
  case (VDict items)
  then show ?thesis by (cases items) (auto simp: value_start_def)
next
  case (VFloat x)
  then show ?thesis using floatstr_start[of x] by simp
qed (auto simp: value_start_def encode_basestring_ascii_def)

lemma scan_once_null: "scan_once (Suc n) (''null'' @ rest) = Inr (VNone, rest)"
  by (simp add: scan_once.simps(3) quote_char_def)

lemma scan_once_true: "scan_once (Suc n) (''true'' @ rest) = Inr (VBool True, rest)"
  by (simp add: scan_once.simps(3) quote_char_def)

lemma scan_once_false: "scan_once (Suc n) (''false'' @ rest) = Inr (VBool False, rest)"
  by (simp add: scan_once.simps(3) quote_char_def)

lemma scan_once_number:
  assumes "c = CHR ''-'' \<or> is_digit c"
  shows "scan_once (Suc n) (c # cs) = (case match_number (c # cs) of Some r \<Rightarrow> Inr r
           | None \<Rightarrow>
               if take 3 (c # cs) = ''NaN'' then Inr (VFloat NaN, drop 3 (c # cs))
               else if take 8 (c # cs) = ''Infinity'' then Inr (VFloat (Infinite False), drop 8 (c # cs))
               else if take 9 (c # cs) = ''-Infinity'' then Inr (VFloat (Infinite True), drop 9 (c # cs))
               else Inl JSONDecodeError)"
proof -
  have "c \<noteq> quote_char" "c \<noteq> CHR ''{''" "c \<noteq> CHR ''[''" "c \<noteq> CHR ''n''" "c \<noteq> CHR ''t''" "c \<noteq> CHR ''f''"
    using assms by (auto simp: is_digit_def quote_char_def)
  then show ?thesis by (simp add: scan_once.simps(3))
qed

lemma scan_once_int:
  assumes "delim rest"
  shows "scan_once (Suc n) (int_str i @ rest) = Inr (VInt i, rest)"
proof -
  obtain c cs where s: "int_str i = c # cs" and c: "c = CHR ''-'' \<or> is_digit c"
    using int_str_start[of i] by blast
  have "match_number (c # (cs @ rest)) = Some (VInt i, rest)"
    using match_number_int_str[OF assms, of i] by (simp add: s)
  then show ?thesis by (simp add: s scan_once_number[OF c])
qed

lemma scan_once_float:
  assumes "valid_double x" "delim rest"
  shows "scan_once (Suc n) (floatstr x @ rest) = Inr (VFloat x, rest)"
proof -
  obtain s m e where x: "x = Finite s m e" using assms(1) by (cases x) simp_all
  obtain c cs where s: "floatstr x = c # cs" and c: "c = CHR ''-'' \<or> is_digit c"
    using float_repr_finite_start[of s m e] by (auto simp: x)
  have "match_number (c # (cs @ rest)) = Some (VFloat x, rest)"
    using match_number_floatstr[OF assms] by (simp add: s)
  then show ?thesis by (simp add: s scan_once_number[OF c])
qed

lemma scan_once_str:
  assumes "list_all valid_code_point s"
  shows "scan_once (Suc n) (encode_basestring_ascii s @ rest) = Inr (VStr s, rest)"
  using scanstring_encode[OF assms, of rest]
  by (simp add: encode_basestring_ascii_def scan_once.simps(3))

lemma scan_once_empty_list: "scan_once (Suc n) (''[]'' @ rest) = Inr (VList [], rest)"
  by (simp add: scan_once.simps(3) quote_char_def skip_ws_def is_ws_def)

lemma scan_once_empty_dict: "scan_once (Suc n) (''{}'' @ rest) = Inr (VDict [], rest)"
  by (simp add: scan_once.simps(3) quote_char_def skip_ws_def is_ws_def)

lemma scan_once_list:
  assumes "value_start c"
  shows "scan_once (Suc n) (CHR ''['' # c # cs) =
           (case JSONArray n (c # cs) of Inl e \<Rightarrow> Inl e | Inr (values, rest') \<Rightarrow> Inr (VList values, rest'))"
  using value_start_props[OF assms]
  by (simp add: scan_once.simps(3) quote_char_def skip_ws_def)

lemma scan_once_dict:
  "scan_once (Suc n) (CHR ''{'' # quote_char # cs) =
     (case JSONObject n cs of Inl e \<Rightarrow> Inl e
      | Inr (pairs, rest') \<Rightarrow> Inr (VDict (set_items [] pairs), rest'))"
  by (simp add: scan_once.simps(3) quote_char_def skip_ws_def is_ws_def)

lemma delim_dumps_items: "delim (dumps_items items @ rest)"
  by (cases items) (auto simp: delim_def)

lemma delim_dumps_elems: "delim (dumps_elems elems @ rest)"
  by (cases elems) (auto simp: delim_def)

lemma array_rest_close: "array_rest n (CHR '']'' # rest) = Inr ([], rest)"
  by (simp add: array_rest_def skip_ws_def is_ws_def)

lemma array_rest_comma:
  assumes "value_start c"
  shows "array_rest n (CHR '','' # CHR '' '' # c # cs) = JSONArray n (c # cs)"
  using value_start_props[OF assms]
  by (simp add: array_rest_def skip_ws_def is_ws_def)

lemma object_rest_close: "object_rest n (CHR ''}'' # rest) = Inr ([], rest)"
  by (simp add: object_rest_def skip_ws_def is_ws_def)

lemma object_rest_comma:
  "object_rest n (CHR '','' # CHR '' '' # quote_char # cs) = JSONObject n cs"
  by (simp add: object_rest_def skip_ws_def is_ws_def quote_char_def)

lemma JSONObject_item:
  assumes "list_all valid_code_point s"
    and "scan_once n (json_dumps val @ rest) = Inr (val, rest)"
    and "object_rest n rest = Inr (items, rest')"
  shows "JSONObject (Suc n) (concat (map escape_char s) @ quote_char # '': '' @ json_dumps val @ rest)
           = Inr ((KStr s, val) # items, rest')"
proof -
  obtain c cs where v: "json_dumps val = c # cs" and c: "value_start c"
    using json_dumps_start[of val] by blast
  have sk: "skip_ws (CHR '' '' # json_dumps val @ rest) = json_dumps val @ rest"
    using value_start_props(1)[OF c] by (simp add: skip_ws_def is_ws_def v)
  have sc: "scanstring (concat (map escape_char s) @ quote_char # CHR '':'' # CHR '' '' # json_dumps val @ rest)
              = Inr (s, CHR '':'' # CHR '' '' # json_dumps val @ rest)"
    by (rule scanstring_encode[OF assms(1)])
  have sk2: "skip_ws (CHR '':'' # CHR '' '' # json_dumps val @ rest) = CHR '':'' # CHR '' '' # json_dumps val @ rest"
    by (simp add: skip_ws_def is_ws_def)
  show ?thesis
    by (simp add: JSONObject_Suc sc sk2 sk assms(2,3))
qed

lemma JSONArray_item:
  assumes "scan_once n (json_dumps val @ rest) = Inr (val, rest)"
    and "array_rest n rest = Inr (vals, rest')"
  shows "JSONArray (Suc n) (json_dumps val @ rest) = Inr (val # vals, rest')"
  using assms by (simp add: JSONArray_Suc)

lemma plain_key_KStr: "plain_key key \<Longrightarrow> \<exists>s. key = KStr s \<and> list_all valid_code_point s"
  by (cases key) (simp_all add: plain_key_def)

lemma plain_key_is_str: "plain_key key \<Longrightarrow> is_str key"
  by (cases key) (simp_all add: plain_key_def)

lemma plain_items_is_str: "plain_items items \<Longrightarrow> \<forall>kv \<in> set items. is_str (fst kv)"
  by (induction items) (force simp: plain_key_is_str)+

lemma set_items_plain:
  assumes "plain_items items" and "distinct (map fst items)"
  shows "set_items [] items = items"
  using set_items_fresh[OF plain_items_is_str[OF assms(1)] assms(2), of "[]"] by simp

lemma decode_encode_aux:
  "plain_tree v \<Longrightarrow> delim rest \<Longrightarrow> cost v \<le> n \<Longrightarrow> scan_once n (json_dumps v @ rest) = Inr (v, rest)"
  "plain_items items \<Longrightarrow> cost_items items \<le> n \<Longrightarrow> object_rest n (dumps_items items @ rest) = Inr (items, rest)"
  "plain_elems elems \<Longrightarrow> cost_elems elems \<le> n \<Longrightarrow> array_rest n (dumps_elems elems @ rest) = Inr (elems, rest)"
proof (induction v and items and elems arbitrary: n rest and n rest and n rest
    rule: json_dumps_dumps_items_dumps_elems.induct)
  case 1
  then obtain m where "n = Suc m" by (cases n) auto
  then show ?case using scan_once_null[of m rest] by simp
next
  case (2 b)
  then obtain m where "n = Suc m" by (cases n) auto
  then show ?case using scan_once_true[of m rest] scan_once_false[of m rest] by simp
next
  case (3 i)
  then obtain m where "n = Suc m" by (cases n) auto
  then show ?case using scan_once_int[OF "3.prems"(2), of m i] by simp
next
  case (4 s)
  then obtain m where "n = Suc m" by (cases n) auto
  then show ?case using scan_once_str[of s m rest] "4.prems"(1) by simp
next
  case 5
  then obtain m where "n = Suc m" by (cases n) auto
  then show ?case using scan_once_empty_list[of m rest] by simp
next
  case (6 val elems)
  from "6.prems"(3) obtain k where n: "n = Suc (Suc k)" and k: "cost val \<le> k" "cost_elems elems \<le> k"
    by (cases n; cases "n - 1") auto
  obtain c cs where v: "json_dumps val = c # cs" and c: "value_start c"
    using json_dumps_start[of val] by blast
  have p: "plain_tree val" "plain_elems elems" using "6.prems"(1) by simp_all
  have a: "scan_once k (json_dumps val @ (dumps_elems elems @ rest)) = Inr (val, dumps_elems elems @ rest)"
    by (rule "6.IH"(1)[OF p(1) delim_dumps_elems k(1)])
  have b: "array_rest k (dumps_elems elems @ rest) = Inr (elems, rest)"
    by (rule "6.IH"(2)[OF p(2) k(2)])
  have "JSONArray (Suc k) (c # cs @ dumps_elems elems @ rest) = Inr (val # elems, rest)"
    using JSONArray_item[OF a b] by (simp add: v)
  then show ?case using scan_once_list[OF c, of "Suc k" "cs @ dumps_elems elems @ rest"]
    by (simp add: n v)
next
  case 7
  then obtain m where "n = Suc m" by (cases n) auto
  then show ?case using scan_once_empty_dict[of m rest] by simp
next
  case (8 key val items)
  from "8.prems"(3) obtain k where n: "n = Suc (Suc k)" and k: "cost val \<le> k" "cost_items items \<le> k"
    by (cases n; cases "n - 1") auto
  have p: "plain_key key" "plain_tree val" "plain_items items" "plain_items ((key, val) # items)"
    and d: "distinct (map fst ((key, val) # items))"
    using "8.prems"(1) by simp_all
  obtain s where s: "key = KStr s" "list_all valid_code_point s" using plain_key_KStr[OF p(1)] by blast
  have a: "scan_once k (json_dumps val @ (dumps_items items @ rest)) = Inr (val, dumps_items items @ rest)"
    by (rule "8.IH"(1)[OF p(2) delim_dumps_items k(1)])
  have b: "object_rest k (dumps_items items @ rest) = Inr (items, rest)"
    by (rule "8.IH"(2)[OF p(3) k(2)])
  have "JSONObject (Suc k) (concat (map escape_char s) @ quote_char # '': '' @ json_dumps val @ dumps_items items @ rest)
          = Inr ((KStr s, val) # items, rest)"
    by (rule JSONObject_item[OF s(2) a b])
  moreover have "set_items [] ((KStr s, val) # items) = (KStr s, val) # items"
    using set_items_plain[OF p(4) d] by (simp only: s(1))
  ultimately show ?case
    using scan_once_dict[of "Suc k"
        "concat (map escape_char s) @ quote_char # '': '' @ json_dumps val @ dumps_items items @ rest"]
    by (simp add: n s(1) encode_basestring_ascii_def)
next
  case 9
  then show ?case using object_rest_close[of n rest] by simp
next
  case (10 key val items)
  from "10.prems"(2) obtain k where n: "n = Suc k" and k: "cost val \<le> k" "cost_items items \<le> k"
    by (cases n) auto
  have p: "plain_key key" "plain_tree val" "plain_items items"
    using "10.prems"(1) by simp_all
  obtain s where s: "key = KStr s" "list_all valid_code_point s" using plain_key_KStr[OF p(1)] by blast
  have a: "scan_once k (json_dumps val @ (dumps_items items @ rest)) = Inr (val, dumps_items items @ rest)"
    by (rule "10.IH"(1)[OF p(2) delim_dumps_items k(1)])
  have b: "object_rest k (dumps_items items @ rest) = Inr (items, rest)"
    by (rule "10.IH"(2)[OF p(3) k(2)])
  have "JSONObject (Suc k) (concat (map escape_char s) @ quote_char # '': '' @ json_dumps val @ dumps_items items @ rest)
          = Inr ((KStr s, val) # items, rest)"
    by (rule JSONObject_item[OF s(2) a b])
  then show ?case
    using object_rest_comma[of "Suc k"
        "concat (map escape_char s) @ quote_char # '': '' @ json_dumps val @ dumps_items items @ rest"]
    by (simp add: n s(1) encode_basestring_ascii_def)
next
  case 11
  then show ?case using array_rest_close[of n rest] by simp
next
  case (12 val elems)
  from "12.prems"(2) obtain k where n: "n = Suc k" and k: "cost val \<le> k" "cost_elems elems \<le> k"
    by (cases n) auto
  obtain c cs where v: "json_dumps val = c # cs" and c: "value_start c"
    using json_dumps_start[of val] by blast
  have p: "plain_tree val" "plain_elems elems" using "12.prems"(1) by simp_all
  have a: "scan_once k (json_dumps val @ (dumps_elems elems @ rest)) = Inr (val, dumps_elems elems @ rest)"
    by (rule "12.IH"(1)[OF p(1) delim_dumps_elems k(1)])
  have b: "array_rest k (dumps_elems elems @ rest) = Inr (elems, rest)"
    by (rule "12.IH"(2)[OF p(2) k(2)])
  have "JSONArray (Suc k) (c # cs @ dumps_elems elems @ rest) = Inr (val # elems, rest)"
    using JSONArray_item[OF a b] by (simp add: v)
  then show ?case using array_rest_comma[OF c, of "Suc k" "cs @ dumps_elems elems @ rest"]
    by (simp add: n v)
next
  case (13 x)
  then obtain m where "n = Suc m" by (cases n) auto
  then show ?case using scan_once_float[of x rest m] "13.prems"(1,2) by simp
qed

lemma is_digit_ascii: "is_digit c \<Longrightarrow> is_ascii_char c"
  by (simp add: is_digit_def is_ascii_char_def)

lemma hex_char_ascii: "d < 16 \<Longrightarrow> is_ascii_char (hex_char d)"
  by (simp add: is_ascii_char_def of_char_hex_char)

lemma hex4_ascii: "list_all is_ascii_char (hex4 n)"
  by (simp add: hex4_def hex_char_ascii)

lemma literal_ascii [simp]:
  "is_ascii_char quote_char" "is_ascii_char backslash_char"
  by (simp_all add: is_ascii_char_def quote_char_def backslash_char_def)

lemma escape_char_ascii: "list_all is_ascii_char (escape_char n)"
proof -
  have u: "is_ascii_char CHR ''u''" "is_ascii_char CHR ''n''" "is_ascii_char CHR ''r''"
    "is_ascii_char CHR ''t''" "is_ascii_char CHR ''b''" "is_ascii_char CHR ''f''"
    by (simp_all add: is_ascii_char_def)
  have c: "32 \<le> n \<Longrightarrow> n \<le> 126 \<Longrightarrow> is_ascii_char (char_of n)"
    by (simp add: is_ascii_char_def)
  show ?thesis
    by (simp add: escape_char_def Let_def u c hex4_ascii)
qed

lemma encode_basestring_ascii_ascii: "list_all is_ascii_char (encode_basestring_ascii s)"
  by (induction s) (simp_all add: encode_basestring_ascii_def escape_char_ascii)

lemma int_str_ascii: "list_all is_ascii_char (int_str i)"
proof -
  have "list_all is_ascii_char (nat_str n)" for n
    using nat_str_digits[of n] by (auto simp: list_all_iff is_digit_ascii)
  moreover have "is_ascii_char CHR ''-''" by (simp add: is_ascii_char_def)
  ultimately show ?thesis by (simp add: int_str_def)
qed

lemma dumps_key_ascii: "list_all is_ascii_char (dumps_key k)"
  by (cases k) (simp_all add: encode_basestring_ascii_ascii)

lemma text_ascii [simp]:
  "list_all is_ascii_char ''null''" "list_all is_ascii_char ''true''" "list_all is_ascii_char ''false''"
  "list_all is_ascii_char ''[]''" "list_all is_ascii_char ''{}''" "list_all is_ascii_char '': ''"
  "list_all is_ascii_char '', ''" "list_all is_ascii_char ''[''" "list_all is_ascii_char ''{''"
  "list_all is_ascii_char '']''" "list_all is_ascii_char ''}''"
  by (simp_all add: is_ascii_char_def)

lemma json_dumps_ascii_aux:
  "list_all is_ascii_char (json_dumps v)"
  "list_all is_ascii_char (dumps_items items)"
  "list_all is_ascii_char (dumps_elems elems)"
proof (induction v and items and elems rule: json_dumps_dumps_items_dumps_elems.induct)
  case (8 key val items)
  then show ?case using dumps_key_ascii[of key] text_ascii by (simp del: text_ascii)
next
  case (10 key val items)
  then show ?case using dumps_key_ascii[of key] text_ascii by (simp del: text_ascii)
qed (simp_all add: int_str_ascii encode_basestring_ascii_ascii floatstr_ascii, simp_all add: is_ascii_char_def)

lemma cost_length_aux:
  "cost v \<le> length (json_dumps v)"
  "Suc (cost_items items) \<le> length (dumps_items items)"
  "Suc (cost_elems elems) \<le> length (dumps_elems elems)"
proof (induction v and items and elems rule: json_dumps_dumps_items_dumps_elems.induct)
  case (3 i)
  obtain c cs where "int_str i = c # cs" using int_str_start[of i] by blast
  then show ?case by simp
next
  case (13 x)
  obtain c cs where "floatstr x = c # cs" using floatstr_start[of x] by blast
  then show ?case by simp
qed (simp_all add: encode_basestring_ascii_def)

lemma json_loads_dumps:
  assumes "plain_tree v"
  shows "json_loads (Bytes (json_dumps v)) = Inr v"
proof -
  obtain c cs where v: "json_dumps v = c # cs" and c: "value_start c"
    using json_dumps_start[of v] by blast
  have sk: "skip_ws (json_dumps v) = json_dumps v"
    using value_start_props(1)[OF c] by (simp add: skip_ws_def v)
  have "delim []" by (simp add: delim_def)
  moreover have "cost v \<le> Suc (length (json_dumps v))" using cost_length_aux(1)[of v] by simp
  ultimately have "scan_once (Suc (length (json_dumps v))) (json_dumps v @ []) = Inr (v, [])"
    by (rule decode_encode_aux(1)[OF assms])
  then show ?thesis
    using json_dumps_ascii_aux(1)[of v]
    by (simp add: json_loads_def is_ascii_text_def sk) (simp add: skip_ws_def)
qed

lemma ascii_valid: "list_all valid_code_point (ascii s)"
proof -
  have "valid_code_point (of_char c)" for c :: char
  proof -
    have "(of_char c :: nat) < 256" by (rule nat_of_char_less_256)
    then show ?thesis unfolding valid_code_point_def by linarith
  qed
  then show ?thesis by (simp add: ascii_def list_all_iff)
qed

lemma plain_key_py_str: "json_key key \<Longrightarrow> plain_key (KStr (py_str key))"
  by (cases key) (simp_all add: json_key_def plain_key_def ascii_valid)

lemma plain_items_iff: "plain_items items \<longleftrightarrow> (\<forall>kv \<in> set items. plain_key (fst kv) \<and> plain_tree (snd kv))"
  by (induction items) auto

lemma dict_setitem_subset: "set (dict_setitem d (KStr s) v) \<subseteq> insert (KStr s, v) (set d)"
proof (induction d)
  case Nil
  then show ?case by simp
next
  case (Cons a d)
  obtain k' v' where a: "a = (k', v')" by (cases a)
  show ?case
  proof (cases "k' = KStr s")
    case True
    then show ?thesis by (auto simp: a)
  next
    case False
    then show ?thesis using Cons by (auto simp: a)
  qed
qed

lemma set_items_subset:
  "\<forall>kv \<in> set kvs. is_str (fst kv) \<Longrightarrow> set (set_items d kvs) \<subseteq> set d \<union> set kvs"
proof (induction kvs arbitrary: d)
  case Nil
  then show ?case by simp
next
  case (Cons kv kvs)
  obtain s v where kv: "kv = (KStr s, v)" using Cons.prems by (cases kv) (auto simp: is_str_iff)
  have "set (set_items (dict_setitem d (KStr s) v) kvs) \<subseteq> set (dict_setitem d (KStr s) v) \<union> set kvs"
    using Cons by simp
  then show ?case using dict_setitem_subset[of d s v] by (auto simp: kv)
qed

lemma convert_list: "snd (convert_key_to_str (VList elems)) = VList (snd (convert_elems elems))"
  by (simp split: prod.splits)

lemma convert_elems_Cons:
  "snd (convert_elems (val # elems)) = snd (convert_key_to_str val) # snd (convert_elems elems)"
  by (simp split: prod.splits)

lemma convert_plain_aux:
  "json_tree t \<Longrightarrow> plain_tree (snd (convert_key_to_str t))"
  "json_items items \<Longrightarrow> \<forall>kv \<in> set (map str_item items). plain_key (fst kv) \<and> plain_tree (snd kv)"
  "json_elems elems \<Longrightarrow> plain_elems (snd (convert_elems elems))"
proof (induction t and items and elems rule: keys_as_str_keys_as_str_items_keys_as_str_elems.induct)
  case (1 items)
  let ?d = "set_items [] (map str_item items)"
  have k: "\<forall>kv \<in> set (map str_item items). is_str (fst kv)" by simp
  have "distinct (map fst ?d)" using set_items_distinct[OF k, of "[]"] by simp
  moreover have "set ?d \<subseteq> set (map str_item items)" using set_items_subset[OF k, of "[]"] by simp
  then have "plain_items ?d" using 1 by (auto simp: plain_items_iff)
  ultimately show ?case by (simp only: convert_dict plain_tree.simps)
next
  case (2 elems)
  then show ?case by (simp only: convert_list plain_tree.simps json_tree.simps)
next
  case (8 key val items)
  then show ?case by (simp add: str_item_def plain_key_py_str)
next
  case (10 val elems)
  then show ?case by (simp only: convert_elems_Cons plain_elems.simps json_elems.simps)
qed simp_all

lemma round_trip_converted:
  assumes "json_tree t"
  shows "json_loads (Bytes (json_dumps (snd (convert_key_to_str t)))) = Inr (snd (convert_key_to_str t))"
  by (rule json_loads_dumps[OF convert_plain_aux(1)[OF assms]])

lemma keys_as_str_items_keys:
  "map fst (keys_as_str_items items) = map KStr (map (py_str \<circ> fst) items)"
  by (induction items) auto

lemma plain_keys_as_str_aux:
  "plain_tree (keys_as_str t) \<Longrightarrow> collision_free t"
  "plain_items (keys_as_str_items items) \<Longrightarrow> collision_free_items items"
  "plain_elems (keys_as_str_elems elems) \<Longrightarrow> collision_free_elems elems"
proof (induction t and items and elems rule: keys_as_str_keys_as_str_items_keys_as_str_elems.induct)
  case (1 items)
  then have "distinct (map KStr (map (py_str \<circ> fst) items))"
    by (simp add: keys_as_str_items_keys)
  then have "distinct (map (py_str \<circ> fst) items)"
    by (rule distinct_map[THEN iffD1, THEN conjunct1])
  then show ?case using 1 by simp
qed simp_all

text \<open>
  Claim C2, as stated: for every JSON-representable value tree, converting its keys and
  encoding it as \<^verbatim>\<open>_sync\<close> does, then decoding the bytes as \<^verbatim>\<open>_load\<close> does, gives
  back the tree with every non-string key replaced by its string form. The tree
  \<^verbatim>\<open>{1: 'a', '1': 'b'}\<close> refutes it: both keys have the string form \<^verbatim>\<open>'1'\<close>, the
  conversion keeps one item of the two, and what is read back is \<^verbatim>\<open>{'1': 'b'}\<close>, which
  has lost the value \<^verbatim>\<open>'a'\<close> and is not the tree with its keys replaced.
\<close>

theorem json_round_trip_collision:
  "json_tree (VDict [(KInt 1, VStr (ascii ''a'')), (KStr (ascii ''1''), VStr (ascii ''b''))])
   \<and> json_loads (Bytes (json_dumps (snd (convert_key_to_str
          (VDict [(KInt 1, VStr (ascii ''a'')), (KStr (ascii ''1''), VStr (ascii ''b''))])))))
       = Inr (VDict [(KStr (ascii ''1''), VStr (ascii ''b''))])
   \<and> keys_as_str (VDict [(KInt 1, VStr (ascii ''a'')), (KStr (ascii ''1''), VStr (ascii ''b''))])
       = VDict [(KStr (ascii ''1''), VStr (ascii ''a'')), (KStr (ascii ''1''), VStr (ascii ''b''))]
   \<and> json_loads (Bytes (json_dumps (snd (convert_key_to_str
          (VDict [(KInt 1, VStr (ascii ''a'')), (KStr (ascii ''1''), VStr (ascii ''b''))])))))
       \<noteq> Inr (keys_as_str (VDict [(KInt 1, VStr (ascii ''a'')), (KStr (ascii ''1''), VStr (ascii ''b''))]))"
proof -
  let ?t = "VDict [(KInt 1, VStr (ascii ''a'')), (KStr (ascii ''1''), VStr (ascii ''b''))]"
  have j: "json_tree ?t"
    by (simp add: json_key_def ascii_def valid_code_point_def)
  have c: "snd (convert_key_to_str ?t) = VDict [(KStr (ascii ''1''), VStr (ascii ''b''))]"
    by (simp add: str_key_def int_str_1)
  have k: "keys_as_str ?t = VDict [(KStr (ascii ''1''), VStr (ascii ''a'')), (KStr (ascii ''1''), VStr (ascii ''b''))]"
    by (simp add: int_str_1)
  have r: "json_loads (Bytes (json_dumps (snd (convert_key_to_str ?t)))) = Inr (snd (convert_key_to_str ?t))"
    by (rule round_trip_converted[OF j])
  show ?thesis using j r by (simp only: c k) simp
qed

text \<open>
  Claim C2, amended: for every JSON-representable value tree (a tree of \<^verbatim>\<open>None\<close>,
  booleans, integers, finite floats, strings of Unicode text, lists and dicts) in which
  no mapping has two keys with the same string form, converting its keys and encoding it
  as \<^verbatim>\<open>_sync\<close> does, then decoding the bytes as \<^verbatim>\<open>_load\<close> does, gives back the tree
  with every non-string key replaced by its string form, and the tree itself when all its
  keys are strings.
\<close>

theorem json_round_trip:
  "(json_tree t \<and> collision_free t \<longrightarrow>
      json_loads (Bytes (json_dumps (snd (convert_key_to_str t)))) = Inr (keys_as_str t))
   \<and> (json_tree t \<and> collision_free t \<and> all_keys_str t \<longrightarrow>
      json_loads (Bytes (json_dumps (snd (convert_key_to_str t)))) = Inr t)"
  using round_trip_converted[of t] convert_keys_as_str_aux(1)[of t] keys_as_str_id_aux(1)[of t]
  by auto

theorem json_round_trip_witness:
  "json_tree (VDict [(KInt 1, VList [VStr (ascii ''a''), VInt (- 2), VBool True, VNone,
                                      VFloat (Finite False 6755399441055744 (- 52))])])
   \<and> collision_free (VDict [(KInt 1, VList [VStr (ascii ''a''), VInt (- 2), VBool True, VNone,
                                      VFloat (Finite False 6755399441055744 (- 52))])])
   \<and> json_loads (Bytes (json_dumps (snd (convert_key_to_str
          (VDict [(KInt 1, VList [VStr (ascii ''a''), VInt (- 2), VBool True, VNone,
                                  VFloat (Finite False 6755399441055744 (- 52))])])))))
       = Inr (VDict [(KStr (ascii ''1''), VList [VStr (ascii ''a''), VInt (- 2), VBool True, VNone,
                                                 VFloat (Finite False 6755399441055744 (- 52))])])
   \<and> all_keys_str (VDict [(KStr (ascii ''k''), VFloat (Finite True 0 (- 1074)))])
   \<and> json_loads (Bytes (json_dumps (snd (convert_key_to_str
          (VDict [(KStr (ascii ''k''), VFloat (Finite True 0 (- 1074)))])))))
       = Inr (VDict [(KStr (ascii ''k''), VFloat (Finite True 0 (- 1074)))])"
proof -
  let ?t = "VDict [(KInt 1, VList [VStr (ascii ''a''), VInt (- 2), VBool True, VNone,
                                   VFloat (Finite False 6755399441055744 (- 52))])]"
  let ?u = "VDict [(KStr (ascii ''k''), VFloat (Finite True 0 (- 1074)))]"
  have u: "json_tree ?t" "json_tree ?u"
    by (simp_all add: json_key_def ascii_def valid_code_point_def)
  have c: "collision_free ?t" "collision_free ?u"
    by simp_all
  have a: "all_keys_str ?u"
    by simp
  have k: "keys_as_str ?t = VDict [(KStr (ascii ''1''), VList [VStr (ascii ''a''), VInt (- 2), VBool True, VNone,
                                                              VFloat (Finite False 6755399441055744 (- 52))])]"
    by (simp add: int_str_1)
  from json_round_trip[of ?t] u(1) c(1)
  have r1: "json_loads (Bytes (json_dumps (snd (convert_key_to_str ?t)))) = Inr (keys_as_str ?t)"
    by blast
  from json_round_trip[of ?u] u(2) c(2) a
  have r2: "json_loads (Bytes (json_dumps (snd (convert_key_to_str ?u)))) = Inr ?u"
    by blast
  show ?thesis using u c a r1 r2 by (simp only: k simp_thms)
qed

text \<open>
  The condition on the keys cannot be dropped anywhere: when the round trip gives back
  the tree with its keys replaced, no mapping of the tree has two keys with the same
  string form.
\<close>

lemma round_trip_only_collision_free:
  assumes "json_tree t"
    and "json_loads (Bytes (json_dumps (snd (convert_key_to_str t)))) = Inr (keys_as_str t)"
  shows "collision_free t"
proof -
  have "keys_as_str t = snd (convert_key_to_str t)"
    using round_trip_converted[OF assms(1)] assms(2) by simp
  then have "plain_tree (keys_as_str t)"
    using convert_plain_aux(1)[OF assms(1)] by simp
  then show ?thesis by (rule plain_keys_as_str_aux(1))
qed

text \<open>
  A float on its way: the binary64 number nearest to one tenth is written \<^verbatim>\<open>0.1\<close>,
  the shortest digits that are read back as that number, and read back from them.
\<close>

lemma round_double_normal:
  assumes "2 powi (52 + e) \<le> q" "q < 2 powi (53 + e)" "- 1074 \<le> e" "e \<le> 971"
    and "round_half_even (q / 2 powi e) = m" "m < 2 ^ 53"
  shows "round_double s q = Finite s m e"
proof -
  have low: "\<forall>e'. - 1074 \<le> e' \<and> e' < e \<longrightarrow> \<not> q < 2 powi (53 + e')"
  proof (intro allI impI)
    fix e' assume e': "- 1074 \<le> e' \<and> e' < e"
    have "(2::rat) powi (53 + e') \<le> 2 powi (52 + e)"
      by (rule power_int_increasing) (use e' in auto)
    then show "\<not> q < 2 powi (53 + e')" using assms(1) by simp
  qed
  have fe: "find_exp q 2046 (- 1074) = e"
    by (rule find_exp_least) (use assms low in auto)
  show ?thesis
    using assms(4,5,6) by (simp add: round_double_def Let_def fe del: of_nat_power)
qed

lemma find_decpt_least:
  assumes "p0 \<le> p" "nat (p - p0) < n"
    and "\<forall>p'. p0 \<le> p' \<and> p' < p \<longrightarrow> \<not> q < 10 powi p'"
    and "q < 10 powi p"
  shows "find_decpt q n p0 = p"
  using assms
proof (induction n arbitrary: p0)
  case 0
  then show ?case by simp
next
  case (Suc n)
  show ?case
  proof (cases "p0 = p")
    case True
    then show ?thesis using Suc.prems by simp
  next
    case False
    then have lt: "p0 < p" using Suc.prems by simp
    have "\<not> q < 10 powi p0" using Suc.prems(3) lt by simp
    moreover have "find_decpt q n (p0 + 1) = p"
      by (rule Suc.IH) (use Suc.prems lt in auto)
    ultimately show ?thesis by simp
  qed
qed

lemma candidates_between:
  assumes "10 powi (p - 1) \<le> q" "q < 10 powi p" "- 323 \<le> p" "p \<le> 308"
  shows "candidates q n =
           [(nat \<lfloor>q / 10 powi (p - int n)\<rfloor>, p - int n), (nat \<lfloor>q / 10 powi (p - int n)\<rfloor> + 1, p - int n)]"
proof -
  have low: "\<forall>p'. - 323 \<le> p' \<and> p' < p \<longrightarrow> \<not> q < 10 powi p'"
  proof (intro allI impI)
    fix p' assume p': "- 323 \<le> p' \<and> p' < p"
    have "(10::rat) powi p' \<le> 10 powi (p - 1)"
      by (rule power_int_increasing) (use p' in auto)
    then show "\<not> q < 10 powi p'" using assms(1) by simp
  qed
  have "find_decpt q 632 (- 323) = p"
    by (rule find_decpt_least) (use assms low in auto)
  then show ?thesis by (simp add: candidates_def Let_def)
qed

lemma floor_tenth: "\<lfloor>36028797018963968 / 5 :: rat\<rfloor> = 7205759403792793"
  by (simp add: floor_unique)

lemma round_double_tenth: "round_double False (decimal (1, - 1)) = Finite False 7205759403792794 (- 56)"
  unfolding decimal_def
  by (rule round_double_normal) (simp_all add: round_half_even_def power_int_minus floor_tenth Let_def)

lemma round_double_fifth: "round_double False (decimal (2, - 1)) \<noteq> Finite False 7205759403792794 (- 56)"
proof -
  have "round_double False (decimal (2, - 1)) = Finite False 7205759403792794 (- 55)"
    unfolding decimal_def
    by (rule round_double_normal) (simp_all add: round_half_even_def power_int_minus floor_tenth Let_def)
  then show ?thesis by simp
qed

lemma floatstr_tenth: "floatstr (Finite False 7205759403792794 (- 56)) = ''0.1''"
proof -
  let ?q = "of_nat 7205759403792794 * 2 powi (- 56) :: rat"
  have c: "candidates ?q 1 = [(1, - 1), (2, - 1)]"
  proof -
    have "candidates ?q 1 = [(nat \<lfloor>?q / 10 powi (0 - int 1)\<rfloor>, 0 - int 1), (nat \<lfloor>?q / 10 powi (0 - int 1)\<rfloor> + 1, 0 - int 1)]"
      by (rule candidates_between) (simp_all add: power_int_minus)
    moreover have "\<lfloor>?q / 10 powi (0 - int 1)\<rfloor> = 1"
      by (simp add: power_int_minus floor_unique)
    ultimately show ?thesis by simp
  qed
  have p: "pick False 7205759403792794 (- 56) 1 = Some (1, - 1)"
    unfolding pick_def Let_def c using round_double_tenth round_double_fifth by simp
  have "[1..<18] = 1 # [2..<18]" by (simp add: upt_conv_Cons)
  then have f: "first_pick False 7205759403792794 (- 56) [1..<18] = Some (1, - 1)"
    using p by simp
  have s: "strip_zeros 1 (- 1) = (1, - 1)" by (subst strip_zeros.simps) simp
  have n: "nat_str 1 = ''1''" using int_str_1 by (simp add: int_str_def)
  have d: "shortest_decimal False 7205759403792794 (- 56) = (1, - 1)"
    unfolding shortest_decimal_def f using s by simp
  show ?thesis
    using n by (simp add: d format_float_short_def)
qed

lemma json_loads_tenth:
  "json_dumps (VFloat (Finite False 7205759403792794 (- 56))) = ''0.1''"
  "json_loads (Bytes ''0.1'') = Inr (VFloat (Finite False 7205759403792794 (- 56)))"
proof -
  show d: "json_dumps (VFloat (Finite False 7205759403792794 (- 56))) = ''0.1''"
    by (simp only: json_dumps.simps floatstr_tenth)
  have "plain_tree (VFloat (Finite False 7205759403792794 (- 56)))" by simp
  then have "json_loads (Bytes (json_dumps (VFloat (Finite False 7205759403792794 (- 56)))))
               = Inr (VFloat (Finite False 7205759403792794 (- 56)))"
    by (rule json_loads_dumps)
  then show "json_loads (Bytes ''0.1'') = Inr (VFloat (Finite False 7205759403792794 (- 56)))"
    by (simp only: d)
qed

text \<open>
  Why the strings must be Unicode text: a Python string may hold surrogate code points, and
  the two surrogates \<^verbatim>\<open>'\ud83d\ude00'\<close> are written as two escapes that the decoder
  reads as the one code point \<^verbatim>\<open>U+1F600\<close>. Such a string is not a string of a JSON text.
\<close>

lemma escape_surrogates:
  "escape_char 0xD83D = backslash_char # CHR ''u'' # hex4 0xD83D"
  "escape_char 0xDE00 = backslash_char # CHR ''u'' # hex4 0xDE00"
  by (simp_all add: escape_char_def)

lemma surrogate_pair_joined:
  "json_loads (Bytes (json_dumps (VStr [0xD83D, 0xDE00]))) = Inr (VStr [0x1F600])"
proof -
  have "scanstring (backslash_char # CHR ''u'' # hex4 0xD83D @ backslash_char # CHR ''u'' # hex4 0xDE00 @ [quote_char])
          = prepend (0x10000 + ((0xD83D - 0xd800) * 1024 + (0xDE00 - 0xdc00))) (scanstring [quote_char])"
    by (rule scanstring_pair) simp_all
  then have sc: "scanstring (backslash_char # CHR ''u'' # hex4 0xD83D @ backslash_char # CHR ''u'' # hex4 0xDE00 @ [quote_char])
          = Inr ([0x1F600], [])"
    by (simp add: scanstring_quote)
  have d: "json_dumps (VStr [0xD83D, 0xDE00])
          = quote_char # backslash_char # CHR ''u'' # hex4 0xD83D @ backslash_char # CHR ''u'' # hex4 0xDE00 @ [quote_char]"
    by (simp add: encode_basestring_ascii_def escape_surrogates)
  have sk: "skip_ws (json_dumps (VStr [0xD83D, 0xDE00])) = json_dumps (VStr [0xD83D, 0xDE00])"
    unfolding d by (simp add: skip_ws_def is_ws_def quote_char_def)
  have "scan_once (Suc (length (json_dumps (VStr [0xD83D, 0xDE00])))) (json_dumps (VStr [0xD83D, 0xDE00]))
          = Inr (VStr [0x1F600], [])"
    unfolding d by (simp only: scan_once.simps(3) sc if_True) simp
  then show ?thesis
    using json_dumps_ascii_aux(1)[of "VStr [0xD83D, 0xDE00]"]
    by (simp add: json_loads_def is_ascii_text_def sk del: json_dumps.simps) (simp add: skip_ws_def)
qed

end
